theory Spec2Isabelle
  imports Complex_Main "HOL-Library.Sublist" "HOL-Library.Product_Lexorder" "HOL-Library.AList"
    "HOL-Library.Multiset"
begin

section \<open>Numbers\<close>

text \<open>
  Timestamps and durations are Python integers (\<open>int\<close>). An integer used as a condition
  (\<open>if n\<close>) is true when it is not zero.

  A Python \<open>float\<close> is an IEEE 754 binary64 number and is modelled by the rational number
  it denotes (\<open>-0.0\<close> and \<open>0.0\<close> are the same value). \<open>py_float x\<close> is the binary64
  number nearest to \<open>x\<close>, ties to the even significand: with \<open>2 ^ e \<le> \<bar>x\<bar> < 2 ^ (e + 1)\<close>
  the significand has 53 bits, so the result is a multiple of \<open>2 ^ (e - 52)\<close>; below
  \<open>2 ^ -1022\<close> the spacing stays \<open>2 ^ -1074\<close> (gradual underflow). The exponent is not
  bounded above: magnitudes of \<open>2 ^ 1024\<close> and more, at which Python raises
  \<open>OverflowError\<close>, are out of the range of quantities derived from 64-bit timestamps.
\<close>

text \<open>The nearest integer, ties to even.\<close>

definition round_half_even :: "rat \<Rightarrow> int" where
  "round_half_even s =
     (let f = \<lfloor>s\<rfloor>; r = s - of_int f
      in if r < 1 / 2 then f
         else if 1 / 2 < r then f + 1
         else if even f then f else f + 1)"

text \<open>\<open>int.bit_length()\<close> of a positive integer.\<close>

function bit_length :: "int \<Rightarrow> int" where
  "bit_length n = (if n \<le> 0 then 0 else 1 + bit_length (n div 2))"
  by pat_completeness auto
termination
proof (relation "measure nat")
  show "wf (measure nat)" by simp
next
  fix n :: int
  assume "\<not> n \<le> 0"
  then have "n div 2 < n" by linarith
  then show "(n div 2, n) \<in> measure nat" using \<open>\<not> n \<le> 0\<close> by simp
qed

declare bit_length.simps [simp del]

text \<open>The binary exponent of a positive rational: \<open>2 ^ ilog2 x \<le> x < 2 ^ (ilog2 x + 1)\<close>.\<close>

definition ilog2 :: "rat \<Rightarrow> int" where
  "ilog2 x =
     (let (a, b) = quotient_of x;
          d = bit_length a - bit_length b
      in if 2 powi d \<le> x then d else d - 1)"

definition py_float :: "rat \<Rightarrow> rat" where
  "py_float x =
     (if x = 0 then 0
      else let e = max (ilog2 \<bar>x\<bar>) (- 1022);
               q = 2 powi (e - 52)
           in of_int (round_half_even (x / q)) * q)"

text \<open>
  \<open>float(n)\<close> for an integer, and the three forms of true division the source uses:
  \<open>int / int\<close> is the correctly rounded quotient of the integers, \<open>float / float\<close> the
  correctly rounded quotient of the floats, and \<open>int / float\<close> converts the integer first.
  All are used with a non-zero divisor; \<open>py_div\<close> is \<open>int / int\<close> with the check for zero.
\<close>

definition float_of_int :: "int \<Rightarrow> rat" where
  "float_of_int n = py_float (of_int n)"

definition int_truediv :: "int \<Rightarrow> int \<Rightarrow> rat" where
  "int_truediv a b = py_float (of_int a / of_int b)"

definition float_truediv :: "rat \<Rightarrow> rat \<Rightarrow> rat" where
  "float_truediv x y = py_float (x / y)"

definition int_float_truediv :: "int \<Rightarrow> rat \<Rightarrow> rat" where
  "int_float_truediv n y = float_truediv (float_of_int n) y"

text \<open>
  \<open>round(x, nd)\<close> for a float \<open>x\<close>: the exact value of \<open>x\<close> is rounded to \<open>nd\<close> decimal
  places, ties to even, and the result is the float nearest to that decimal number.
\<close>

definition py_round :: "nat \<Rightarrow> rat \<Rightarrow> rat" where
  "py_round nd x = py_float (of_int (round_half_even (x * 10 ^ nd)) / 10 ^ nd)"

datatype py_error = ZeroDivisionError

text \<open>True division \<open>a / b\<close> of integers, which raises on a zero divisor.\<close>

definition py_div :: "int \<Rightarrow> int \<Rightarrow> py_error + rat" where
  "py_div a b = (if b = 0 then Inl ZeroDivisionError else Inr (int_truediv a b))"

section \<open>Strings\<close>

text \<open>
  Kernel names are Python \<open>str\<close> values. They are modelled as byte strings; the only
  string operations the engine applies to them are \<open>lower()\<close>, the substring test
  \<open>in\<close> and \<open>startswith\<close>, all against ASCII patterns.
\<close>

definition lower_char :: "char \<Rightarrow> char" where
  "lower_char c =
     (let n = (of_char c :: nat) in if 65 \<le> n \<and> n \<le> 90 then char_of (n + 32) else c)"

definition lower :: "string \<Rightarrow> string" where
  "lower s = map lower_char s"

text \<open>\<open>sub in s\<close>: \<open>sub\<close> occurs as a contiguous substring of \<open>s\<close>.\<close>

fun str_in :: "string \<Rightarrow> string \<Rightarrow> bool" where
  "str_in sub [] = (sub = [])"
| "str_in sub (c # cs) = (prefix sub (c # cs) \<or> str_in sub cs)"

definition startswith :: "string \<Rightarrow> string \<Rightarrow> bool" where
  "startswith s p = prefix p s"

text \<open>\<open>s.replace(old, new)\<close> for a non-empty \<open>old\<close>: left to right, without overlaps.\<close>

function replace :: "string \<Rightarrow> string \<Rightarrow> string \<Rightarrow> string" where
  "replace [] old new = []"
| "replace (c # cs) old new =
     (if old \<noteq> [] \<and> prefix old (c # cs)
      then new @ replace (drop (length old) (c # cs)) old new
      else c # replace cs old new)"
  by pat_completeness auto
termination
  by (relation "measure (\<lambda>(s, old, new). length s)") auto

section \<open>overlap.py: kernel classification\<close>

text \<open>The dictionary \<open>NCCL_TYPES\<close>, in its insertion order (the order \<open>items()\<close> yields).\<close>

definition NCCL_TYPES :: "(string \<times> string) list" where
  "NCCL_TYPES =
     [(''AllGather'', ''allgather''),
      (''ReduceScatter'', ''reducescatter''),
      (''AllReduce'', ''allreduce''),
      (''Broadcast'', ''broadcast''),
      (''SendRecv'', ''sendrecv''),
      (''Reduce'', ''reduce'')]"

text \<open>The \<open>for key, label in NCCL_TYPES.items()\<close> loop with its early return.\<close>

fun first_label :: "(string \<times> string) list \<Rightarrow> string \<Rightarrow> string option" where
  "first_label [] name = None"
| "first_label ((key, label) # rest) name =
     (if str_in (lower key) (lower name) then Some (''nccl_'' @ label)
      else first_label rest name)"

definition classify_kernel :: "string \<Rightarrow> string" where
  "classify_kernel name =
     (if str_in ''nccl'' (lower name)
      then (case first_label NCCL_TYPES name of Some r \<Rightarrow> r | None \<Rightarrow> ''nccl_other'')
      else ''compute'')"

section \<open>profile.py: the event store and its queries\<close>

text \<open>
  The SQLite export is three tables of rows. A kernel row carries its two names already
  joined from \<open>StringIds\<close>. \<open>ORDER BY start\<close> is a sort by the start column that leaves
  rows with equal starts in table order.
\<close>

record kernel_row =
  k_start :: int
  k_end :: int
  k_streamId :: int
  k_correlationId :: int
  k_deviceId :: int
  k_name :: string
  k_demangled :: string

record runtime_row =
  r_globalTid :: int
  r_start :: int
  r_end :: int
  r_correlationId :: int

record nvtx_row =
  n_text :: "string option"
  n_globalTid :: int
  n_start :: int
  n_end :: int

record profile =
  KERNEL :: "kernel_row list"
  RUNTIME :: "runtime_row list"
  NVTX_EVENTS :: "nvtx_row list"

text \<open>\<open>Profile.kernels(device, trim)\<close>.\<close>

definition kernels :: "profile \<Rightarrow> int \<Rightarrow> (int \<times> int) option \<Rightarrow> kernel_row list" where
  "kernels prof device trim =
     sort_key k_start
       (filter (\<lambda>k. k_deviceId k = device \<and>
                    (case trim of None \<Rightarrow> True
                     | Some (t0, t1) \<Rightarrow> t0 \<le> k_start k \<and> k_end k \<le> t1))
          (KERNEL prof))"

text \<open>
  \<open>Profile.kernel_map(device)\<close>: a dictionary from correlation id to kernel info, filled
  in start order, so that a later row replaces the value of an earlier one with the same key.
\<close>

record kinfo =
  ki_start :: int
  ki_end :: int
  ki_stream :: int
  ki_name :: string
  ki_demangled :: string

definition kinfo_of :: "kernel_row \<Rightarrow> kinfo" where
  "kinfo_of r = \<lparr>ki_start = k_start r, ki_end = k_end r, ki_stream = k_streamId r,
                 ki_name = k_name r, ki_demangled = k_demangled r\<rparr>"

definition kernel_map :: "profile \<Rightarrow> int \<Rightarrow> (int \<times> kinfo) list" where
  "kernel_map prof device =
     fold (\<lambda>r m. AList.update (k_correlationId r) (kinfo_of r) m)
       (sort_key k_start (filter (\<lambda>k. k_deviceId k = device) (KERNEL prof))) []"

text \<open>The rows of \<open>RUNTIME JOIN KERNEL ON correlationId WHERE deviceId = device\<close>.\<close>

definition launches_on :: "profile \<Rightarrow> int \<Rightarrow> (runtime_row \<times> kernel_row) list" where
  "launches_on prof device =
     concat (map (\<lambda>r. map (\<lambda>k. (r, k))
                        (filter (\<lambda>k. r_correlationId r = k_correlationId k \<and> k_deviceId k = device)
                           (KERNEL prof)))
               (RUNTIME prof))"

text \<open>\<open>Profile.gpu_threads(device)\<close>.\<close>

definition gpu_threads :: "profile \<Rightarrow> int \<Rightarrow> int set" where
  "gpu_threads prof device = set (map (\<lambda>(r, k). r_globalTid r) (launches_on prof device))"

text \<open>\<open>Profile.runtime_index(threads, window)\<close>: a dictionary keyed by thread id.\<close>

definition runtime_index ::
  "profile \<Rightarrow> int set \<Rightarrow> int \<times> int \<Rightarrow> int \<Rightarrow> runtime_row list option" where
  "runtime_index prof threads window tid =
     (if tid \<in> threads
      then Some (sort_key r_start
                  (filter (\<lambda>r. r_globalTid r = tid \<and> fst window \<le> r_start r \<and> r_end r \<le> snd window)
                     (RUNTIME prof)))
      else None)"

text \<open>\<open>Profile.nvtx_events(threads, window)\<close>.\<close>

definition nvtx_events :: "profile \<Rightarrow> int set \<Rightarrow> int \<times> int \<Rightarrow> nvtx_row list" where
  "nvtx_events prof threads window =
     sort_key n_start
       (filter (\<lambda>n. n_text n \<noteq> None \<and> n_start n < n_end n
                    \<and> fst window \<le> n_start n \<and> n_start n \<le> snd window
                    \<and> n_globalTid n \<in> threads)
          (NVTX_EVENTS prof))"

text \<open>
  \<open>ProfileMeta.time_range\<close>: \<open>(MIN(start) or 0, MAX(end) or 0)\<close> over the whole kernel
  table; the aggregates are \<open>NULL\<close> on an empty table.
\<close>

definition time_range :: "profile \<Rightarrow> int \<times> int" where
  "time_range prof =
     (if KERNEL prof = [] then (0, 0)
      else (Min (set (map k_start (KERNEL prof))), Max (set (map k_end (KERNEL prof)))))"

section \<open>tree.py: primary thread\<close>

text \<open>
  \<open>_find_primary_thread\<close> runs
  \<open>SELECT r.globalTid, COUNT(...) AS cnt ... GROUP BY r.globalTid ORDER BY cnt DESC LIMIT 1\<close>
  and returns the thread of the first row, or \<open>0\<close> when there is no row. The query gives no
  order among groups with equal counts, so the function is modelled by the relation between
  a trace and the values it can return: \<open>join_counts\<close> are the grouped rows, and any
  group whose count no other group exceeds can be the first row.
\<close>

definition join_counts :: "profile \<Rightarrow> int \<Rightarrow> (int \<times> nat) list" where
  "join_counts prof device =
     (let tids = map (\<lambda>(r, k). r_globalTid r) (launches_on prof device)
      in map (\<lambda>tid. (tid, count_list tids tid)) (remdups tids))"

definition primary_thread_values :: "profile \<Rightarrow> int \<Rightarrow> int list" where
  "primary_thread_values prof device =
     (let rows = join_counts prof device
      in if rows = [] then [0]
         else map fst (filter (\<lambda>(t, cnt). list_all (\<lambda>(t', cnt'). cnt' \<le> cnt) rows) rows))"

definition find_primary_thread :: "profile \<Rightarrow> int \<Rightarrow> int \<Rightarrow> bool" where
  "find_primary_thread prof device tid \<longleftrightarrow> tid \<in> set (primary_thread_values prof device)"

section \<open>overlap.py: interval helpers\<close>

text \<open>
  \<open>_merge_intervals\<close>: \<open>sorted\<close> orders the pairs lexicographically; the loop rewrites
  or extends the last element of \<open>merged\<close>.
\<close>

fun merge_loop :: "(int \<times> int) list \<Rightarrow> (int \<times> int) list \<Rightarrow> (int \<times> int) list" where
  "merge_loop merged [] = merged"
| "merge_loop merged ((start, end') # rest) =
     (if start \<le> snd (last merged)
      then merge_loop (butlast merged @ [(fst (last merged), max (snd (last merged)) end')]) rest
      else merge_loop (merged @ [(start, end')]) rest)"

definition merge_intervals :: "(int \<times> int) list \<Rightarrow> (int \<times> int) list" where
  "merge_intervals intervals =
     (if intervals = [] then []
      else let sorted_iv = sort intervals
           in merge_loop [hd sorted_iv] (tl sorted_iv))"

definition total_covered :: "(int \<times> int) list \<Rightarrow> int" where
  "total_covered merged = sum_list (map (\<lambda>(start, end'). end' - start) merged)"

text \<open>
  \<open>_intersection_coverage\<close>: the pointer \<open>j\<close> survives from one interval of \<open>a\<close> to the
  next; \<open>k\<close> restarts from \<open>j\<close> for each of them.
\<close>

function advance_j :: "(int \<times> int) list \<Rightarrow> nat \<Rightarrow> int \<Rightarrow> nat" where
  "advance_j b j a_start =
     (if j < length b \<and> snd (b ! j) \<le> a_start then advance_j b (j + 1) a_start else j)"
  by pat_completeness auto
termination
  by (relation "measure (\<lambda>(b, j, a_start). length b - j)") auto

declare advance_j.simps [simp del]

function sweep_k :: "(int \<times> int) list \<Rightarrow> nat \<Rightarrow> int \<Rightarrow> int \<Rightarrow> int \<Rightarrow> int" where
  "sweep_k b k a_start a_end tot =
     (if k < length b \<and> fst (b ! k) < a_end
      then let overlap_start = max a_start (fst (b ! k));
               overlap_end = min a_end (snd (b ! k))
           in sweep_k b (k + 1) a_start a_end
                (if overlap_start < overlap_end then tot + (overlap_end - overlap_start)
                 else tot)
      else tot)"
  by pat_completeness auto
termination
  by (relation "measure (\<lambda>(b, k, a_start, a_end, tot). length b - k)") auto

declare sweep_k.simps [simp del]

fun sweep_a :: "(int \<times> int) list \<Rightarrow> nat \<Rightarrow> int \<Rightarrow> (int \<times> int) list \<Rightarrow> int" where
  "sweep_a b j tot [] = tot"
| "sweep_a b j tot ((a_start, a_end) # rest) =
     (let j' = advance_j b j a_start
      in sweep_a b j' (sweep_k b j' a_start a_end tot) rest)"

definition intersection_coverage :: "(int \<times> int) list \<Rightarrow> (int \<times> int) list \<Rightarrow> int" where
  "intersection_coverage a b = (if a = [] \<or> b = [] then 0 else sweep_a b 0 0 a)"

section \<open>overlap.py: compute/communication overlap\<close>

text \<open>
  The nanosecond quantities \<open>overlap_analysis\<close> computes before it converts them to
  rounded milliseconds. \<open>idle_ns\<close> is kept as computed; the report clamps it with
  \<open>max(0, idle_ns)\<close>.
\<close>

record overlap_ns =
  compute_ns :: int
  nccl_ns :: int
  overlap_ns :: int
  compute_only_ns :: int
  nccl_only_ns :: int
  idle_ns :: int
  total_ns :: int

definition is_nccl :: "kernel_row \<Rightarrow> bool" where
  "is_nccl k = startswith (classify_kernel (k_name k)) ''nccl_''"

definition compute_intervals :: "kernel_row list \<Rightarrow> (int \<times> int) list" where
  "compute_intervals ks = map (\<lambda>k. (k_start k, k_end k)) (filter (\<lambda>k. \<not> is_nccl k) ks)"

definition nccl_intervals :: "kernel_row list \<Rightarrow> (int \<times> int) list" where
  "nccl_intervals ks = map (\<lambda>k. (k_start k, k_end k)) (filter is_nccl ks)"

text \<open>Defined for a non-empty kernel list, as in the source after its guard.\<close>

definition overlap_quantities :: "kernel_row list \<Rightarrow> overlap_ns" where
  "overlap_quantities ks =
     (let span_start = Min (set (map k_start ks));
          span_end = Max (set (map k_end ks));
          tot = span_end - span_start;
          compute_merged = merge_intervals (compute_intervals ks);
          nccl_merged = merge_intervals (nccl_intervals ks);
          c = total_covered compute_merged;
          n = total_covered nccl_merged;
          ov = intersection_coverage compute_merged nccl_merged;
          compute_only = c - ov;
          nccl_only = n - ov;
          idle = tot - compute_only - nccl_only - ov
      in \<lparr>compute_ns = c, nccl_ns = n, overlap_ns = ov, compute_only_ns = compute_only,
          nccl_only_ns = nccl_only, idle_ns = idle, total_ns = tot\<rparr>)"

record overlap_report =
  compute_only_ms :: rat
  nccl_only_ms :: rat
  overlap_ms :: rat
  idle_ms :: rat
  total_ms :: rat
  overlap_pct :: rat
  compute_kernels :: nat
  nccl_kernels :: nat

text \<open>The result is the dictionary \<open>{"error": "no kernels"}\<close> or the report.\<close>

datatype overlap_result = ErrorDict string | Report overlap_report

definition overlap_analysis_of :: "kernel_row list \<Rightarrow> overlap_result" where
  "overlap_analysis_of ks =
     (if ks = [] then ErrorDict ''no kernels''
      else let q = overlap_quantities ks
           in Report
             \<lparr>compute_only_ms = py_round 2 (int_float_truediv (compute_only_ns q) 1000000),
              nccl_only_ms = py_round 2 (int_float_truediv (nccl_only_ns q) 1000000),
              overlap_ms = py_round 2 (int_float_truediv (overlap_ns q) 1000000),
              idle_ms = py_round 2 (int_float_truediv (max 0 (idle_ns q)) 1000000),
              total_ms = py_round 2 (int_float_truediv (total_ns q) 1000000),
              overlap_pct =
                (if nccl_ns q \<noteq> 0
                 then py_round 1 (int_truediv (100 * overlap_ns q) (nccl_ns q))
                 else 0),
              compute_kernels = length (compute_intervals ks),
              nccl_kernels = length (nccl_intervals ks)\<rparr>)"

definition overlap_analysis :: "profile \<Rightarrow> int \<Rightarrow> (int \<times> int) option \<Rightarrow> overlap_result" where
  "overlap_analysis prof device trim = overlap_analysis_of (kernels prof device trim)"
section \<open>overlap.py: collective breakdown\<close>

record nccl_row =
  b_type :: string
  b_count :: nat
  b_total_ms :: rat
  b_avg_ms :: rat
  b_min_ms :: rat
  b_max_ms :: rat
  b_pct :: rat

text \<open>
  \<open>by_type[ctype].append(dur_ns)\<close> on a \<open>defaultdict(list)\<close>: a new key goes to the end,
  an existing key keeps its place.
\<close>

fun by_type_append :: "string \<Rightarrow> int \<Rightarrow> (string \<times> int list) list \<Rightarrow> (string \<times> int list) list" where
  "by_type_append ctype dur [] = [(ctype, [dur])]"
| "by_type_append ctype dur ((c, durs) # rest) =
     (if c = ctype then (c, durs @ [dur]) # rest
      else (c, durs) # by_type_append ctype dur rest)"

definition by_type :: "kernel_row list \<Rightarrow> (string \<times> int list) list" where
  "by_type nccl_ks =
     fold (\<lambda>k m. by_type_append (classify_kernel (k_name k)) (k_end k - k_start k) m) nccl_ks []"

text \<open>One row of the result; the percentage divides by the summed collective time.\<close>

definition breakdown_row :: "int \<Rightarrow> string \<times> int list \<Rightarrow> py_error + nccl_row" where
  "breakdown_row total_nccl_ns item =
     (let ctype = fst item; durs = snd item; tot = sum_list durs
      in case py_div (100 * tot) total_nccl_ns of
           Inl e \<Rightarrow> Inl e
         | Inr p \<Rightarrow> Inr
             \<lparr>b_type = replace ctype ''nccl_'' [],
              b_count = length durs,
              b_total_ms = py_round 2 (int_float_truediv tot 1000000),
              b_avg_ms = py_round 3 (float_truediv (int_truediv tot (int (length durs))) 1000000),
              b_min_ms = py_round 3 (int_float_truediv (Min (set durs)) 1000000),
              b_max_ms = py_round 3 (int_float_truediv (Max (set durs)) 1000000),
              b_pct = py_round 1 p\<rparr>)"

text \<open>The \<open>for\<close> loop that appends the rows; the first exception ends it.\<close>

fun breakdown_rows :: "int \<Rightarrow> (string \<times> int list) list \<Rightarrow> py_error + nccl_row list" where
  "breakdown_rows total_nccl_ns [] = Inr []"
| "breakdown_rows total_nccl_ns (item # rest) =
     (case breakdown_row total_nccl_ns item of
        Inl e \<Rightarrow> Inl e
      | Inr row \<Rightarrow>
          (case breakdown_rows total_nccl_ns rest of
             Inl e \<Rightarrow> Inl e
           | Inr rows \<Rightarrow> Inr (row # rows)))"

definition nccl_breakdown_of :: "kernel_row list \<Rightarrow> py_error + nccl_row list" where
  "nccl_breakdown_of ks =
     (let nccl_ks = filter is_nccl ks
      in if nccl_ks = [] then Inr []
         else let total_nccl_ns = sum_list (map (\<lambda>k. k_end k - k_start k) nccl_ks)
              in breakdown_rows total_nccl_ns
                   (sort_key (\<lambda>x. - sum_list (snd x)) (by_type nccl_ks)))"

definition nccl_breakdown :: "profile \<Rightarrow> int \<Rightarrow> (int \<times> int) option \<Rightarrow> py_error + nccl_row list" where
  "nccl_breakdown prof device trim = nccl_breakdown_of (kernels prof device trim)"

section \<open>Correlating launches with kernels\<close>

text \<open>
  The loop shared by \<open>project_nvtx\<close>, \<open>build_nvtx_tree\<close> and \<open>detect_iterations\<close>: walk
  the runtime calls in start order, stop at the first that starts after the scope ends, and
  collect the kernel of every call that lies inside the scope and has one on the device.
\<close>

fun correlated :: "(int \<times> kinfo) list \<Rightarrow> int \<Rightarrow> int \<Rightarrow> runtime_row list \<Rightarrow> kinfo list" where
  "correlated kmap cpu_start cpu_end [] = []"
| "correlated kmap cpu_start cpu_end (rt # rest) =
     (if cpu_end < r_start rt then []
      else if cpu_start \<le> r_start rt \<and> r_end rt \<le> cpu_end
           then (case map_of kmap (r_correlationId rt) of
                   Some k \<Rightarrow> k # correlated kmap cpu_start cpu_end rest
                 | None \<Rightarrow> correlated kmap cpu_start cpu_end rest)
           else correlated kmap cpu_start cpu_end rest)"

section \<open>overlap.py: iteration detection\<close>

text \<open>
  The filter to non-overlapping markers: \<open>last_end\<close> starts at \<open>0\<close>; a row is kept when
  its start is not before \<open>last_end\<close>, which then becomes the row's end.
\<close>

fun keep_non_overlapping :: "int \<Rightarrow> nvtx_row list \<Rightarrow> nvtx_row list" where
  "keep_non_overlapping last_end [] = []"
| "keep_non_overlapping last_end (n # rest) =
     (if last_end \<le> n_start n then n # keep_non_overlapping (n_end n) rest
      else keep_non_overlapping last_end rest)"

record iteration =
  it_iteration :: nat
  it_gpu_start_s :: rat
  it_gpu_end_s :: rat
  it_duration_ms :: rat
  it_compute_ms :: rat
  it_kernel_count :: nat
  it_nccl_count :: nat

text \<open>The body of the loop over \<open>enumerate(iterations)\<close>.\<close>

definition iteration_of ::
  "(int \<times> kinfo) list \<Rightarrow> runtime_row list \<Rightarrow> nat \<times> nvtx_row \<Rightarrow> iteration option" where
  "iteration_of kmap rt_all item =
     (let i = fst item; it = snd item;
          kernels_in_iter = correlated kmap (n_start it) (n_end it) rt_all
      in if kernels_in_iter = [] then None
         else let gpu_start = Min (set (map ki_start kernels_in_iter));
                  gpu_end = Max (set (map ki_end kernels_in_iter));
                  compute = sum_list (map (\<lambda>k. ki_end k - ki_start k) kernels_in_iter);
                  nccl_count = length (filter (\<lambda>k. str_in ''nccl'' (lower (ki_name k))) kernels_in_iter)
              in Some \<lparr>it_iteration = i,
                       it_gpu_start_s = py_round 4 (int_float_truediv gpu_start 1000000000),
                       it_gpu_end_s = py_round 4 (int_float_truediv gpu_end 1000000000),
                       it_duration_ms = py_round 2 (int_float_truediv (gpu_end - gpu_start) 1000000),
                       it_compute_ms = py_round 2 (int_float_truediv compute 1000000),
                       it_kernel_count = length kernels_in_iter,
                       it_nccl_count = nccl_count\<rparr>)"

text \<open>
  The primary thread's marker scopes, in start order. \<open>like marker text\<close> stands for
  SQLite's \<open>text LIKE '%marker%'\<close>; a \<open>NULL\<close> text matches nothing.
\<close>

definition pri_nvtx ::
  "(string \<Rightarrow> string \<Rightarrow> bool) \<Rightarrow> profile \<Rightarrow> (int \<times> int) option \<Rightarrow> string \<Rightarrow> int \<Rightarrow> nvtx_row list" where
  "pri_nvtx like prof trim marker primary_tid =
     (let pad = 5000000000;
          t = (case trim of Some w \<Rightarrow> w | None \<Rightarrow> time_range prof)
      in sort_key n_start
           (filter (\<lambda>n. (case n_text n of None \<Rightarrow> False | Some text \<Rightarrow> like marker text)
                        \<and> n_start n < n_end n \<and> n_globalTid n = primary_tid
                        \<and> fst t - pad \<le> n_start n \<and> n_start n \<le> snd t)
              (NVTX_EVENTS prof)))"

definition marker_iterations ::
  "(string \<Rightarrow> string \<Rightarrow> bool) \<Rightarrow> profile \<Rightarrow> (int \<times> int) option \<Rightarrow> string \<Rightarrow> int \<Rightarrow> nvtx_row list" where
  "marker_iterations like prof trim marker primary_tid =
     keep_non_overlapping 0 (pri_nvtx like prof trim marker primary_tid)"

text \<open>
  \<open>detect_iterations\<close>, for the thread id \<open>primary_tid\<close> that \<open>_find_primary_thread\<close>
  returned. The first query of the source (over all launching threads) is never read.
\<close>

definition detect_iterations_on ::
  "(string \<Rightarrow> string \<Rightarrow> bool) \<Rightarrow> profile \<Rightarrow> int \<Rightarrow> (int \<times> int) option \<Rightarrow> string \<Rightarrow> int
     \<Rightarrow> iteration list" where
  "detect_iterations_on like prof device trim marker primary_tid =
     (let kmap = kernel_map prof device
      in if kmap = [] then []
         else let iterations = marker_iterations like prof trim marker primary_tid
              in if iterations = [] then []
                 else let rt_all = sort_key r_start
                                     (filter (\<lambda>r. r_globalTid r = primary_tid) (RUNTIME prof))
                      in List.map_filter (iteration_of kmap rt_all) (enumerate 0 iterations))"

definition detect_iterations ::
  "(string \<Rightarrow> string \<Rightarrow> bool) \<Rightarrow> profile \<Rightarrow> int \<Rightarrow> (int \<times> int) option \<Rightarrow> string
     \<Rightarrow> iteration list \<Rightarrow> bool" where
  "detect_iterations like prof device trim marker result =
     list_ex (\<lambda>primary_tid. result = detect_iterations_on like prof device trim marker primary_tid)
       (primary_thread_values prof device)"

section \<open>projection.py\<close>

text \<open>
  \<open>_compute_depth\<close> keeps, per thread, a list of end times of open scopes; the top of the
  stack is the last element. It pops the ends that are not after the new start, reads the
  depth, pushes the new end and sorts the list in descending order. The dictionary
  \<open>stacks\<close> is passed in and returned.
\<close>

function pop_closed :: "int list \<Rightarrow> int \<Rightarrow> int list" where
  "pop_closed stk start =
     (if stk \<noteq> [] \<and> last stk \<le> start then pop_closed (butlast stk) start else stk)"
  by pat_completeness auto
termination
  by (relation "measure (\<lambda>(stk, start). length stk)") auto

declare pop_closed.simps [simp del]

definition compute_depth ::
  "(int \<rightharpoonup> int list) \<Rightarrow> int \<Rightarrow> int \<Rightarrow> int \<Rightarrow> nat \<times> (int \<rightharpoonup> int list)" where
  "compute_depth stacks tid start end' =
     (let stacks1 = (if tid \<in> dom stacks then stacks else stacks(tid \<mapsto> []));
          stk = pop_closed (the (stacks1 tid)) start;
          depth = length stk
      in (depth, stacks1(tid \<mapsto> rev (sort (stk @ [end'])))))"

record projected =
  p_name :: string
  p_start :: int
  p_end :: int
  p_depth :: nat
  p_projected :: bool

text \<open>
  The body of the loop over the scopes, after the depth is known: the scope is emitted with
  the bounds of its kernels when it has some, with its own bounds otherwise, and only when
  the interval meets the window.
\<close>

definition emit ::
  "(int \<times> kinfo) list \<Rightarrow> (int \<Rightarrow> runtime_row list option) \<Rightarrow> int \<times> int \<Rightarrow> nvtx_row \<Rightarrow> nat
     \<Rightarrow> projected option" where
  "emit kmap rt_idx trim n depth =
     (let text = the (n_text n); tid = n_globalTid n; cpu_start = n_start n; cpu_end = n_end n;
          ks = correlated kmap cpu_start cpu_end (case rt_idx tid of Some rts \<Rightarrow> rts | None \<Rightarrow> [])
      in if ks \<noteq> []
         then let ps = Min (set (map ki_start ks)); pe = Max (set (map ki_end ks))
              in if fst trim \<le> pe \<and> ps \<le> snd trim
                 then Some \<lparr>p_name = text, p_start = ps, p_end = pe, p_depth = depth,
                           p_projected = True\<rparr>
                 else None
         else if fst trim \<le> cpu_end \<and> cpu_start \<le> snd trim
              then Some \<lparr>p_name = text, p_start = cpu_start, p_end = cpu_end, p_depth = depth,
                        p_projected = False\<rparr>
              else None)"

text \<open>A scope without text, or with the empty text, is skipped before its depth is computed.\<close>

definition has_text :: "nvtx_row \<Rightarrow> bool" where
  "has_text n = (case n_text n of None \<Rightarrow> False | Some text \<Rightarrow> text \<noteq> [])"

fun project_loop ::
  "(int \<times> kinfo) list \<Rightarrow> (int \<Rightarrow> runtime_row list option) \<Rightarrow> int \<times> int
     \<Rightarrow> (int \<rightharpoonup> int list) \<Rightarrow> nvtx_row list \<Rightarrow> projected list" where
  "project_loop kmap rt_idx trim stacks [] = []"
| "project_loop kmap rt_idx trim stacks (n # rest) =
     (if \<not> has_text n then project_loop kmap rt_idx trim stacks rest
      else let (depth, stacks') = compute_depth stacks (n_globalTid n) (n_start n) (n_end n)
           in (case emit kmap rt_idx trim n depth of
                 Some r \<Rightarrow> r # project_loop kmap rt_idx trim stacks' rest
               | None \<Rightarrow> project_loop kmap rt_idx trim stacks' rest))"

definition project_nvtx :: "profile \<Rightarrow> int \<Rightarrow> int \<times> int \<Rightarrow> int \<Rightarrow> projected list" where
  "project_nvtx prof device trim pad =
     (let kmap = kernel_map prof device
      in if kmap = [] then []
         else let threads = gpu_threads prof device;
                  rt_idx = runtime_index prof threads (fst trim - pad, snd trim + 2000000000);
                  nvtx = nvtx_events prof threads (fst trim - pad, snd trim)
              in project_loop kmap rt_idx trim Map.empty nvtx)"

section \<open>tree.py: the tree builder\<close>

text \<open>
  A tree node is a dictionary with a \<open>type\<close> of \<open>"nvtx"\<close> or \<open>"kernel"\<close>. A kernel leaf has
  a demangled name and a stream and no children; \<open>duration_ms\<close> is present once the tree
  went through \<open>to_json\<close>.
\<close>

datatype ntype = NvtxT | KernelT

datatype node =
  Node (nname: string) (ndemangled: string) (nstart: int) (nend: int) (nstream: "int option")
       (ntype: ntype) (duration_ms: "rat option") (children: "node list")

definition kernel_leaf :: "kinfo \<Rightarrow> node" where
  "kernel_leaf k =
     Node (ki_name k) (ki_demangled k) (ki_start k) (ki_end k) (Some (ki_stream k)) KernelT None []"

record entry =
  e_name :: string
  e_start :: int
  e_end :: int
  e_cpu_start :: int
  e_cpu_end :: int
  e_kernels :: "node list"

text \<open>The projected entry of one scope, when it has a text, kernels, and meets the window.\<close>

definition entry_of ::
  "(int \<times> kinfo) list \<Rightarrow> runtime_row list \<Rightarrow> int \<times> int \<Rightarrow> nvtx_row \<Rightarrow> entry option" where
  "entry_of kmap rt_rows trim n =
     (if \<not> has_text n then None
      else let child_kernels = map kernel_leaf (correlated kmap (n_start n) (n_end n) rt_rows)
           in if child_kernels = [] then None
              else let gpu_start = Min (set (map nstart child_kernels));
                       gpu_end = Max (set (map nend child_kernels))
                   in if gpu_end < fst trim \<or> snd trim < gpu_start then None
                      else Some \<lparr>e_name = the (n_text n), e_start = gpu_start, e_end = gpu_end,
                                 e_cpu_start = n_start n, e_cpu_end = n_end n,
                                 e_kernels = child_kernels\<rparr>)"

text \<open>
  Nesting. The stack holds the open entries, top last. While an entry is on the stack, its
  node is the one appended last at its depth: the last root for the bottom entry, the last
  child of the node below for the others. Appending to \<open>stack[-1]["_node"]["children"]\<close>
  is therefore appending at depth \<open>len(stack)\<close> along the path of last nodes, and appending
  to \<open>roots\<close> is appending at depth \<open>0\<close>.
\<close>

function pop_ended :: "entry list \<Rightarrow> int \<Rightarrow> entry list" where
  "pop_ended stack cpu_start =
     (if stack \<noteq> [] \<and> e_cpu_end (last stack) \<le> cpu_start
      then pop_ended (butlast stack) cpu_start else stack)"
  by pat_completeness auto
termination
  by (relation "measure (\<lambda>(stack, cpu_start). length stack)") auto

declare pop_ended.simps [simp del]

fun append_at :: "nat \<Rightarrow> node \<Rightarrow> node list \<Rightarrow> node list" where
  "append_at 0 new nodes = nodes @ [new]"
| "append_at (Suc d) new nodes =
     (if nodes = [] then nodes
      else butlast nodes @
           [case last nodes of
              Node nm dm s e st ty du cs \<Rightarrow> Node nm dm s e st ty du (append_at d new cs)])"

fun nest :: "node list \<Rightarrow> entry list \<Rightarrow> entry list \<Rightarrow> node list" where
  "nest roots stack [] = roots"
| "nest roots stack (entry # rest) =
     (let stack' = pop_ended stack (e_cpu_start entry);
          new = Node (e_name entry) [] (e_start entry) (e_end entry) None NvtxT None
                  (e_kernels entry)
      in nest (append_at (length stack') new roots) (stack' @ [entry]) rest)"

text \<open>\<open>_collect_kernel_starts\<close>, returning the start times it adds to the set.\<close>

fun collect_kernel_starts :: "node \<Rightarrow> int list" where
  "collect_kernel_starts (Node nm dm s e st ty du cs) =
     concat (map (\<lambda>child. if ntype child = KernelT then [nstart child]
                          else collect_kernel_starts child) cs)"

text \<open>\<open>_deduplicate_kernels\<close> on one node of the list, and on the list.\<close>

fun deduplicate_node :: "node \<Rightarrow> node" where
  "deduplicate_node (Node nm dm s e st ty du cs) =
     (if ty \<noteq> NvtxT then Node nm dm s e st ty du cs
      else let child_kernel_starts =
                 concat (map collect_kernel_starts (filter (\<lambda>child. ntype child = NvtxT) cs))
           in Node nm dm s e st ty du
                (map deduplicate_node
                   (filter (\<lambda>c. ntype c \<noteq> KernelT \<or> nstart c \<notin> set child_kernel_starts) cs)))"

definition deduplicate_kernels :: "node list \<Rightarrow> node list" where
  "deduplicate_kernels nodes = map deduplicate_node nodes"

text \<open>\<open>_sort_children\<close>: a stable sort of every children list by start time.\<close>

fun sort_children_node :: "node \<Rightarrow> node" where
  "sort_children_node (Node nm dm s e st ty du cs) =
     Node nm dm s e st ty du (map sort_children_node (sort_key nstart cs))"

definition sort_children :: "node list \<Rightarrow> node list" where
  "sort_children nodes = map sort_children_node nodes"

text \<open>
  \<open>build_nvtx_tree\<close>, for the thread id \<open>primary_tid\<close> that \<open>_find_primary_thread\<close>
  returned; \<open>0\<close> stands for no primary thread.
\<close>

definition tree_entries :: "profile \<Rightarrow> int \<Rightarrow> int \<times> int \<Rightarrow> int \<Rightarrow> int \<Rightarrow> entry list" where
  "tree_entries prof device trim pad primary_tid =
     (let kmap = kernel_map prof device;
          rt_rows = sort_key r_start
                      (filter (\<lambda>r. r_globalTid r = primary_tid \<and> fst trim - pad \<le> r_start r
                                   \<and> r_end r \<le> snd trim + 2000000000)
                         (RUNTIME prof));
          nvtx_rows = sort_key n_start
                        (filter (\<lambda>n. n_text n \<noteq> None \<and> n_start n < n_end n
                                     \<and> n_globalTid n = primary_tid
                                     \<and> fst trim - pad \<le> n_start n \<and> n_start n \<le> snd trim)
                           (NVTX_EVENTS prof))
      in List.map_filter (entry_of kmap rt_rows trim) nvtx_rows)"

definition build_nvtx_tree_on :: "profile \<Rightarrow> int \<Rightarrow> int \<times> int \<Rightarrow> int \<Rightarrow> int \<Rightarrow> node list" where
  "build_nvtx_tree_on prof device trim pad primary_tid =
     (if kernel_map prof device = [] then []
      else if primary_tid = 0 then []
      else sort_children
             (deduplicate_kernels (nest [] [] (tree_entries prof device trim pad primary_tid))))"

definition build_nvtx_tree :: "profile \<Rightarrow> int \<Rightarrow> int \<times> int \<Rightarrow> int \<Rightarrow> node list \<Rightarrow> bool" where
  "build_nvtx_tree prof device trim pad result =
     list_ex (\<lambda>primary_tid. result = build_nvtx_tree_on prof device trim pad primary_tid)
       (primary_thread_values prof device)"

section \<open>ai/analyzer.py\<close>

record target =
  t_name :: string
  t_depth :: nat
  t_duration_ms :: rat
  t_kernel_count :: nat
  t_kernels :: "string list"
  t_note :: "string option"

definition nvtx_children :: "node \<Rightarrow> node list" where
  "nvtx_children node = filter (\<lambda>c. ntype c = NvtxT) (children node)"

definition kern_children :: "node \<Rightarrow> node list" where
  "kern_children node = filter (\<lambda>c. ntype c = KernelT) (children node)"

definition target_of :: "node \<Rightarrow> nat \<Rightarrow> string option \<Rightarrow> target" where
  "target_of node depth note =
     \<lparr>t_name = nname node, t_depth = depth,
      t_duration_ms = (case duration_ms node of Some d \<Rightarrow> d | None \<Rightarrow> 0),
      t_kernel_count = length (kern_children node),
      t_kernels = map nname (kern_children node),
      t_note = note\<rparr>"

definition mixed_note :: string where
  "mixed_note = ''mixed: has both NVTX sub-ranges and uncovered kernels''"

text \<open>\<open>_walk\<close> on one node of the list, returning the targets it appends, in order.\<close>

function walk_node :: "node \<Rightarrow> int \<Rightarrow> nat \<Rightarrow> target list" where
  "walk_node node max_kernels depth =
     (if ntype node \<noteq> NvtxT then []
      else (if nvtx_children node = [] \<and> max_kernels < int (length (kern_children node))
            then [target_of node depth None] else [])
         @ (if nvtx_children node \<noteq> [] \<and> max_kernels < int (length (kern_children node))
            then [target_of node depth (Some mixed_note)] else [])
         @ concat (map (\<lambda>c. walk_node c max_kernels (depth + 1)) (nvtx_children node)))"
  by pat_completeness auto
termination
proof (relation "measure (\<lambda>(node, max_kernels, depth). size node)")
  show "wf (measure (\<lambda>(node, max_kernels, depth). size node))" by simp
next
  fix node :: node and max_kernels :: int and depth :: nat and c
  assume "c \<in> set (nvtx_children node)"
  then have "c \<in> set (children node)" by (simp add: nvtx_children_def)
  then have "size c < size node"
    by (cases node) (auto simp: less_Suc_eq_le dest: size_list_estimation')
  then show "((c, max_kernels, depth + 1), (node, max_kernels, depth))
      \<in> measure (\<lambda>(node, max_kernels, depth). size node)" by simp
qed

declare walk_node.simps [simp del]

definition walk :: "node list \<Rightarrow> int \<Rightarrow> nat \<Rightarrow> target list" where
  "walk nodes max_kernels depth = concat (map (\<lambda>n. walk_node n max_kernels depth) nodes)"

definition find_refinement_targets :: "node list \<Rightarrow> int \<Rightarrow> target list" where
  "find_refinement_targets tree_roots max_kernels =
     sort_key (\<lambda>t. - int (t_kernel_count t)) (walk tree_roots max_kernels 0)"

record stats =
  s_total_nvtx :: nat
  s_total_kernels :: nat
  s_converged :: nat
  s_unconverged :: nat
  s_mapped_kernels :: nat
  s_unmapped_kernels :: nat

text \<open>\<open>_convergence_walk\<close> on one node, threading the counters.\<close>

function convergence_node :: "node \<Rightarrow> stats \<Rightarrow> stats" where
  "convergence_node node st =
     (if ntype node = KernelT then st
      else let st1 = st\<lparr>s_total_nvtx := s_total_nvtx st + 1\<rparr>;
               n = length (kern_children node);
               st2 = (if nvtx_children node = []
                      then (if n = 1
                            then st1\<lparr>s_converged := s_converged st1 + 1,
                                     s_mapped_kernels := s_mapped_kernels st1 + 1\<rparr>
                            else if 1 < n
                            then st1\<lparr>s_unconverged := s_unconverged st1 + 1,
                                     s_unmapped_kernels := s_unmapped_kernels st1 + n\<rparr>
                            else st1)
                      else st1)
           in fold convergence_node (nvtx_children node) st2)"
  by pat_completeness auto
termination
proof (relation "measure (\<lambda>(node, st). size node)")
  show "wf (measure (\<lambda>(node, st). size node))" by simp
next
  fix node :: node and st st1 :: stats and n :: nat and st2 c :: node and st3 :: stats
  fix x xa xb z
  assume "z \<in> set (nvtx_children node)"
  then have "z \<in> set (children node)" by (simp add: nvtx_children_def)
  then have "size z < size node"
    by (cases node) (auto simp: less_Suc_eq_le dest: size_list_estimation')
  then show "((z, xb), (node, st)) \<in> measure (\<lambda>(node, st). size node)" by simp
qed

declare convergence_node.simps [simp del]

definition convergence_walk :: "node list \<Rightarrow> stats \<Rightarrow> stats" where
  "convergence_walk nodes st = fold convergence_node nodes st"

record report =
  total_nvtx :: nat
  total_kernels :: nat
  converged_nvtx :: nat
  unconverged_nvtx :: nat
  coverage_pct :: rat
  mapped_kernels :: nat
  unmapped_kernels :: nat

definition convergence_report :: "node list \<Rightarrow> report" where
  "convergence_report tree_roots =
     (let st = convergence_walk tree_roots
                 \<lparr>s_total_nvtx = 0, s_total_kernels = 0, s_converged = 0, s_unconverged = 0,
                  s_mapped_kernels = 0, s_unmapped_kernels = 0\<rparr>;
          tot = s_mapped_kernels st + s_unmapped_kernels st
      in \<lparr>total_nvtx = s_total_nvtx st,
          total_kernels = tot,
          converged_nvtx = s_converged st,
          unconverged_nvtx = s_unconverged st,
          coverage_pct = (if tot \<noteq> 0
                          then py_round 1 (int_truediv (100 * int (s_mapped_kernels st)) (int tot))
                          else 0),
          mapped_kernels = s_mapped_kernels st,
          unmapped_kernels = s_unmapped_kernels st\<rparr>)"


section \<open>Example traces\<close>

text \<open>
  Three compute kernels at \<open>[0,10]\<close>, \<open>[10,20]\<close>, \<open>[25,30]\<close> and one collective kernel at
  \<open>[5,15]\<close> on device 0.
\<close>

definition scenario_profile :: profile where
  "scenario_profile =
     \<lparr>KERNEL =
        [\<lparr>k_start = 0, k_end = 10, k_streamId = 0, k_correlationId = 1, k_deviceId = 0,
          k_name = ''gemm'', k_demangled = ''gemm''\<rparr>,
         \<lparr>k_start = 10, k_end = 20, k_streamId = 0, k_correlationId = 2, k_deviceId = 0,
          k_name = ''gemm'', k_demangled = ''gemm''\<rparr>,
         \<lparr>k_start = 25, k_end = 30, k_streamId = 0, k_correlationId = 3, k_deviceId = 0,
          k_name = ''gemm'', k_demangled = ''gemm''\<rparr>,
         \<lparr>k_start = 5, k_end = 15, k_streamId = 1, k_correlationId = 4, k_deviceId = 0,
          k_name = ''ncclAllReduce_sum'', k_demangled = ''ncclAllReduce_sum''\<rparr>],
      RUNTIME = [], NVTX_EVENTS = []\<rparr>"

text \<open>One collective kernel of zero duration on device 0.\<close>

definition zero_duration_profile :: profile where
  "zero_duration_profile =
     \<lparr>KERNEL =
        [\<lparr>k_start = 5, k_end = 5, k_streamId = 1, k_correlationId = 1, k_deviceId = 0,
          k_name = ''ncclAllReduce_sum'', k_demangled = ''ncclAllReduce_sum''\<rparr>],
      RUNTIME = [], NVTX_EVENTS = []\<rparr>"

text \<open>
  A compute kernel of four microseconds followed at once by a collective kernel of four
  microseconds on device 0.
\<close>

definition rounding_profile :: profile where
  "rounding_profile =
     \<lparr>KERNEL =
        [\<lparr>k_start = 0, k_end = 4000, k_streamId = 0, k_correlationId = 1, k_deviceId = 0,
          k_name = ''gemm'', k_demangled = ''gemm''\<rparr>,
         \<lparr>k_start = 4000, k_end = 8000, k_streamId = 1, k_correlationId = 2, k_deviceId = 0,
          k_name = ''ncclAllReduce_sum'', k_demangled = ''ncclAllReduce_sum''\<rparr>],
      RUNTIME = [], NVTX_EVENTS = []\<rparr>"

text \<open>A single collective kernel whose end precedes its start.\<close>

definition inverted_profile :: profile where
  "inverted_profile =
     \<lparr>KERNEL =
        [\<lparr>k_start = 0, k_end = - 1, k_streamId = 1, k_correlationId = 1, k_deviceId = 0,
          k_name = ''ncclAllReduce_sum'', k_demangled = ''ncclAllReduce_sum''\<rparr>],
      RUNTIME = [], NVTX_EVENTS = []\<rparr>"

text \<open>Two threads with one correlated launch each on device 0.\<close>

definition tie_profile :: profile where
  "tie_profile =
     \<lparr>KERNEL =
        [\<lparr>k_start = 100, k_end = 110, k_streamId = 0, k_correlationId = 1, k_deviceId = 0,
          k_name = ''gemm'', k_demangled = ''gemm''\<rparr>,
         \<lparr>k_start = 120, k_end = 130, k_streamId = 0, k_correlationId = 2, k_deviceId = 0,
          k_name = ''gemm'', k_demangled = ''gemm''\<rparr>],
      RUNTIME =
        [\<lparr>r_globalTid = 7, r_start = 10, r_end = 12, r_correlationId = 1\<rparr>,
         \<lparr>r_globalTid = 3, r_start = 20, r_end = 22, r_correlationId = 2\<rparr>],
      NVTX_EVENTS = []\<rparr>"

text \<open>
  Thread 5 makes one launch call, a graph launch whose correlation id three kernels of
  device 0 carry; thread 9 makes two launch calls of one kernel each.
\<close>

definition graph_launch_profile :: profile where
  "graph_launch_profile =
     \<lparr>KERNEL =
        [\<lparr>k_start = 100, k_end = 110, k_streamId = 0, k_correlationId = 1, k_deviceId = 0,
          k_name = ''gemm'', k_demangled = ''gemm''\<rparr>,
         \<lparr>k_start = 110, k_end = 120, k_streamId = 0, k_correlationId = 1, k_deviceId = 0,
          k_name = ''relu'', k_demangled = ''relu''\<rparr>,
         \<lparr>k_start = 120, k_end = 130, k_streamId = 0, k_correlationId = 1, k_deviceId = 0,
          k_name = ''softmax'', k_demangled = ''softmax''\<rparr>,
         \<lparr>k_start = 140, k_end = 150, k_streamId = 0, k_correlationId = 2, k_deviceId = 0,
          k_name = ''gemm'', k_demangled = ''gemm''\<rparr>,
         \<lparr>k_start = 160, k_end = 170, k_streamId = 0, k_correlationId = 3, k_deviceId = 0,
          k_name = ''gemm'', k_demangled = ''gemm''\<rparr>],
      RUNTIME =
        [\<lparr>r_globalTid = 5, r_start = 10, r_end = 12, r_correlationId = 1\<rparr>,
         \<lparr>r_globalTid = 9, r_start = 20, r_end = 22, r_correlationId = 2\<rparr>,
         \<lparr>r_globalTid = 9, r_start = 30, r_end = 32, r_correlationId = 3\<rparr>],
      NVTX_EVENTS = []\<rparr>"

text \<open>
  Two disjoint marker scopes with a kernel launch each, all before the trace-local epoch, and
  the same trace moved by \<open>d\<close> nanoseconds.
\<close>

definition negative_profile :: profile where
  "negative_profile =
     \<lparr>KERNEL =
        [\<lparr>k_start = -90, k_end = -80, k_streamId = 0, k_correlationId = 1, k_deviceId = 0,
          k_name = ''gemm'', k_demangled = ''gemm''\<rparr>,
         \<lparr>k_start = -30, k_end = -20, k_streamId = 0, k_correlationId = 2, k_deviceId = 0,
          k_name = ''gemm'', k_demangled = ''gemm''\<rparr>],
      RUNTIME =
        [\<lparr>r_globalTid = 1, r_start = -95, r_end = -94, r_correlationId = 1\<rparr>,
         \<lparr>r_globalTid = 1, r_start = -35, r_end = -34, r_correlationId = 2\<rparr>],
      NVTX_EVENTS =
        [\<lparr>n_text = Some ''sample_0'', n_globalTid = 1, n_start = -100, n_end = -50\<rparr>,
         \<lparr>n_text = Some ''sample_0'', n_globalTid = 1, n_start = -40, n_end = -10\<rparr>]\<rparr>"

definition shift_profile :: "int \<Rightarrow> profile \<Rightarrow> profile" where
  "shift_profile d prof =
     \<lparr>KERNEL = map (\<lambda>k. k\<lparr>k_start := k_start k + d, k_end := k_end k + d\<rparr>) (KERNEL prof),
      RUNTIME = map (\<lambda>r. r\<lparr>r_start := r_start r + d, r_end := r_end r + d\<rparr>) (RUNTIME prof),
      NVTX_EVENTS = map (\<lambda>n. n\<lparr>n_start := n_start n + d, n_end := n_end n + d\<rparr>) (NVTX_EVENTS prof)\<rparr>"

text \<open>A stand-in for the \<open>LIKE\<close> match of the marker: plain substring containment.\<close>

definition substring_like :: "string \<Rightarrow> string \<Rightarrow> bool" where
  "substring_like marker text = str_in marker text"

text \<open>
  A scope \<open>layer\<close> that launches two kernels, the second inside its nested scope
  \<open>attention\<close>.
\<close>

definition mixed_profile :: profile where
  "mixed_profile =
     \<lparr>KERNEL =
        [\<lparr>k_start = 200, k_end = 210, k_streamId = 0, k_correlationId = 1, k_deviceId = 0,
          k_name = ''gemm'', k_demangled = ''gemm''\<rparr>,
         \<lparr>k_start = 220, k_end = 230, k_streamId = 0, k_correlationId = 2, k_deviceId = 0,
          k_name = ''softmax'', k_demangled = ''softmax''\<rparr>],
      RUNTIME =
        [\<lparr>r_globalTid = 1, r_start = 10, r_end = 11, r_correlationId = 1\<rparr>,
         \<lparr>r_globalTid = 1, r_start = 60, r_end = 61, r_correlationId = 2\<rparr>],
      NVTX_EVENTS =
        [\<lparr>n_text = Some ''layer'', n_globalTid = 1, n_start = 0, n_end = 100\<rparr>,
         \<lparr>n_text = Some ''attention'', n_globalTid = 1, n_start = 50, n_end = 90\<rparr>]\<rparr>"

text \<open>Trees written by hand: a kernel leaf, a scope node, two leaf scopes.\<close>

definition kleaf :: "string \<Rightarrow> int \<Rightarrow> int \<Rightarrow> node" where
  "kleaf nm s e = Node nm nm s e (Some 0) KernelT None []"

definition scope :: "string \<Rightarrow> int \<Rightarrow> int \<Rightarrow> node list \<Rightarrow> node" where
  "scope nm s e cs = Node nm [] s e None NvtxT None cs"

definition two_leaf_tree :: "node list" where
  "two_leaf_tree =
     [scope ''A'' 0 30 [kleaf ''k1'' 0 10, kleaf ''k2'' 10 20, kleaf ''k3'' 20 30],
      scope ''B'' 40 50 [kleaf ''k4'' 40 50]]"

text \<open>A leaf scope with one kernel and a leaf scope with 1999 kernels.\<close>

definition skewed_tree :: "node list" where
  "skewed_tree =
     [scope ''A'' 0 10 [kleaf ''k'' 0 10],
      scope ''B'' 10 20 (replicate 1999 (kleaf ''k'' 10 20))]"

text \<open>
  Thread 1 opens \<open>step\<close> and, in the same nanosecond, its first nested scope \<open>setup\<close>;
  the table lists the nested scope first. \<open>forward\<close> is nested in \<open>step\<close> after \<open>setup\<close>
  has closed.
\<close>

definition depth_tie_profile :: profile where
  "depth_tie_profile =
     \<lparr>KERNEL =
        [\<lparr>k_start = 50, k_end = 60, k_streamId = 0, k_correlationId = 1, k_deviceId = 0,
          k_name = ''gemm'', k_demangled = ''gemm''\<rparr>],
      RUNTIME =
        [\<lparr>r_globalTid = 1, r_start = 6, r_end = 7, r_correlationId = 1\<rparr>],
      NVTX_EVENTS =
        [\<lparr>n_text = Some ''setup'', n_globalTid = 1, n_start = 0, n_end = 5\<rparr>,
         \<lparr>n_text = Some ''step'', n_globalTid = 1, n_start = 0, n_end = 10\<rparr>,
         \<lparr>n_text = Some ''forward'', n_globalTid = 1, n_start = 6, n_end = 8\<rparr>]\<rparr>"

text \<open>
  Two adjacent scopes of thread 1, \<open>forward\<close> ending at the nanosecond at which
  \<open>backward\<close> starts, and a launch call of zero duration at that nanosecond.
\<close>

definition boundary_profile :: profile where
  "boundary_profile =
     \<lparr>KERNEL =
        [\<lparr>k_start = 100, k_end = 200, k_streamId = 0, k_correlationId = 1, k_deviceId = 0,
          k_name = ''gemm'', k_demangled = ''gemm''\<rparr>],
      RUNTIME =
        [\<lparr>r_globalTid = 1, r_start = 10, r_end = 10, r_correlationId = 1\<rparr>],
      NVTX_EVENTS =
        [\<lparr>n_text = Some ''forward'', n_globalTid = 1, n_start = 0, n_end = 10\<rparr>,
         \<lparr>n_text = Some ''backward'', n_globalTid = 1, n_start = 10, n_end = 20\<rparr>]\<rparr>"


section \<open>Covered time\<close>

text \<open>
  A half-open interval \<open>(s, e)\<close> covers the nanoseconds \<open>s, ..., e - 1\<close>; the covered
  duration of an interval list is the number of nanoseconds it covers. \<open>separated\<close> is
  what \<open>_merge_intervals\<close> establishes: well-formed runs in start order with a gap between
  consecutive runs. \<open>merge_run\<close> is the merge loop with the last run carried in an
  argument, and \<open>ov\<close> is the overlap of one pair of intervals.
\<close>

definition cells :: "int \<times> int \<Rightarrow> int set" where
  "cells iv = {fst iv ..< snd iv}"

definition cov :: "(int \<times> int) list \<Rightarrow> int set" where
  "cov xs = (\<Union>iv\<in>set xs. cells iv)"

fun separated :: "(int \<times> int) list \<Rightarrow> bool" where
  "separated [] = True"
| "separated [x] = (fst x \<le> snd x)"
| "separated (x # y # r) = (fst x \<le> snd x \<and> snd x < fst y \<and> separated (y # r))"

fun merge_run :: "int \<times> int \<Rightarrow> (int \<times> int) list \<Rightarrow> (int \<times> int) list" where
  "merge_run cur [] = [cur]"
| "merge_run cur ((s, e) # rest) =
     (if s \<le> snd cur then merge_run (fst cur, max (snd cur) e) rest
      else cur # merge_run (s, e) rest)"

definition ov :: "int \<times> int \<Rightarrow> int \<times> int \<Rightarrow> int" where
  "ov x y = (let os = max (fst x) (fst y); oe = min (snd x) (snd y)
             in if os < oe then oe - os else 0)"


section \<open>Launch counts and scope nodes\<close>

text \<open>
  \<open>correlated_pairs\<close> is what \<open>COUNT\<close> counts in the group of a thread: the rows of
  the join that belong to the thread, one for every pair of a launch call of the thread and a
  kernel of the device with the same correlation id. \<open>correlated_launches\<close> is the number
  of launch calls of the thread that correlate with at least one kernel of the device.
\<close>

definition correlated_pairs :: "profile \<Rightarrow> int \<Rightarrow> int \<Rightarrow> nat" where
  "correlated_pairs prof device tid =
     length (filter (\<lambda>(r, k). r_globalTid r = tid) (launches_on prof device))"

definition correlated_launches :: "profile \<Rightarrow> int \<Rightarrow> int \<Rightarrow> nat" where
  "correlated_launches prof device tid =
     length (filter (\<lambda>r. r_globalTid r = tid
                        \<and> list_ex (\<lambda>k. r_correlationId r = k_correlationId k \<and> k_deviceId k = device)
                             (KERNEL prof))
               (RUNTIME prof))"

text \<open>
  The scope nodes of a tree with their depths, in the order of a walk from the roots: a
  scope node, then the scope nodes below each of its scope children. \<open>targets_of\<close> is the
  refinement target a scope node gives rise to, if any.
\<close>

function scopes_at :: "node \<Rightarrow> nat \<Rightarrow> (node \<times> nat) list" where
  "scopes_at node depth =
     (if ntype node \<noteq> NvtxT then []
      else (node, depth) # concat (map (\<lambda>c. scopes_at c (depth + 1)) (nvtx_children node)))"
  by pat_completeness auto
termination
proof (relation "measure (\<lambda>(node, depth). size node)")
  show "wf (measure (\<lambda>(node, depth). size node))" by simp
next
  fix node :: node and depth :: nat and c
  assume "c \<in> set (nvtx_children node)"
  then have "c \<in> set (children node)" by (simp add: nvtx_children_def)
  then have "size c < size node"
    by (cases node) (auto simp: less_Suc_eq_le dest: size_list_estimation')
  then show "((c, depth + 1), (node, depth)) \<in> measure (\<lambda>(node, depth). size node)" by simp
qed

declare scopes_at.simps [simp del]

definition all_scopes :: "node list \<Rightarrow> (node \<times> nat) list" where
  "all_scopes roots = concat (map (\<lambda>n. scopes_at n 0) roots)"

definition targets_of :: "int \<Rightarrow> node \<times> nat \<Rightarrow> target list" where
  "targets_of max_kernels nd =
     (if max_kernels < int (length (kern_children (fst nd)))
      then [target_of (fst nd) (snd nd)
              (if nvtx_children (fst nd) = [] then None else Some mixed_note)]
      else [])"


text \<open>
  A converged scope is a scope node without scope children that has exactly one kernel
  child, an unconverged scope one that has several. \<open>count_scope\<close> is what
  \<open>_convergence_walk\<close> adds to its counters at one scope node.
\<close>

definition converged_scope :: "node \<Rightarrow> bool" where
  "converged_scope n \<longleftrightarrow> nvtx_children n = [] \<and> length (kern_children n) = 1"

definition unconverged_scope :: "node \<Rightarrow> bool" where
  "unconverged_scope n \<longleftrightarrow> nvtx_children n = [] \<and> 1 < length (kern_children n)"

definition count_scope :: "node \<Rightarrow> stats \<Rightarrow> stats" where
  "count_scope n st =
     st\<lparr>s_total_nvtx := s_total_nvtx st + 1,
        s_converged := s_converged st + (if converged_scope n then 1 else 0),
        s_unconverged := s_unconverged st + (if unconverged_scope n then 1 else 0),
        s_mapped_kernels := s_mapped_kernels st + (if converged_scope n then 1 else 0),
        s_unmapped_kernels := s_unmapped_kernels st
           + (if unconverged_scope n then length (kern_children n) else 0)\<rparr>"


section \<open>Depths in the projector\<close>

text \<open>
  \<open>scope_depths\<close> lists the values of \<open>depth\<close> in \<open>project_nvtx\<close>, one per scope with
  a text, in processing order. \<open>open_before ns j\<close> counts the scopes before position \<open>j\<close>
  on the thread of scope \<open>j\<close> that end after scope \<open>j\<close> starts. \<open>depth_inv\<close> relates
  the end-time stacks to the scopes processed so far.
\<close>

fun scope_depths :: "(int \<rightharpoonup> int list) \<Rightarrow> nvtx_row list \<Rightarrow> nat list" where
  "scope_depths stacks [] = []"
| "scope_depths stacks (n # rest) =
     (if \<not> has_text n then scope_depths stacks rest
      else let (depth, stacks') = compute_depth stacks (n_globalTid n) (n_start n) (n_end n)
           in depth # scope_depths stacks' rest)"

definition open_before :: "nvtx_row list \<Rightarrow> nat \<Rightarrow> nat" where
  "open_before ns j =
     length (filter (\<lambda>p. n_globalTid p = n_globalTid (ns ! j) \<and> n_start (ns ! j) < n_end p)
               (take j ns))"

definition stack_of :: "(int \<rightharpoonup> int list) \<Rightarrow> int \<Rightarrow> int list" where
  "stack_of stacks tid = (case stacks tid of None \<Rightarrow> [] | Some stk \<Rightarrow> stk)"

definition depth_inv :: "(int \<rightharpoonup> int list) \<Rightarrow> nvtx_row list \<Rightarrow> bool" where
  "depth_inv stacks prev \<longleftrightarrow>
     (\<forall>tid. sorted (rev (stack_of stacks tid)) \<and>
        (\<forall>s. (\<forall>p\<in>set prev. n_start p \<le> s) \<longrightarrow>
           length (filter (\<lambda>e. s < e) (stack_of stacks tid)) =
           length (filter (\<lambda>p. n_globalTid p = tid \<and> s < n_end p) prev)))"

text \<open>The scopes \<open>project_nvtx\<close> processes, in processing order, and their depths.\<close>

definition projected_scopes :: "profile \<Rightarrow> int \<Rightarrow> int \<times> int \<Rightarrow> int \<Rightarrow> nvtx_row list" where
  "projected_scopes prof device trim pad =
     filter has_text (nvtx_events prof (gpu_threads prof device) (fst trim - pad, snd trim))"

definition projected_depths :: "profile \<Rightarrow> int \<Rightarrow> int \<times> int \<Rightarrow> int \<Rightarrow> nat list" where
  "projected_depths prof device trim pad =
     scope_depths Map.empty (nvtx_events prof (gpu_threads prof device) (fst trim - pad, snd trim))"


section \<open>Kernel leaves of a tree\<close>

text \<open>
  \<open>all_leaves\<close> lists the kernel leaves below a scope node: its own kernel children, then
  those of the scope nodes below it; \<open>forest_leaves\<close> does so for a list of roots. A kernel
  is identified by the fields a leaf carries: \<open>kernel_id\<close>. \<open>claimed_below\<close> are the
  start times of the kernels listed below the scope children of a node, and \<open>ids\<close> is
  the multiset of kernel identities below a scope node.
\<close>

fun all_leaves :: "node \<Rightarrow> node list" where
  "all_leaves (Node nm dm s e st ty du cs) =
     (if ty \<noteq> NvtxT then []
      else filter (\<lambda>c. ntype c = KernelT) cs
           @ concat (map all_leaves (filter (\<lambda>c. ntype c = NvtxT) cs)))"

definition forest_leaves :: "node list \<Rightarrow> node list" where
  "forest_leaves nodes = concat (map all_leaves nodes)"

definition kernel_id :: "node \<Rightarrow> string \<times> string \<times> int \<times> int \<times> int option" where
  "kernel_id n = (nname n, ndemangled n, nstart n, nend n, nstream n)"

definition claimed_below :: "node \<Rightarrow> int set" where
  "claimed_below n = nstart ` set (forest_leaves (nvtx_children n))"

definition ids :: "node \<Rightarrow> (string \<times> string \<times> int \<times> int \<times> int option) multiset" where
  "ids n = mset (map kernel_id (all_leaves n))"

text \<open>
  \<open>fin\<close> lists the kernel leaves that remain below a scope node after deduplication.
\<close>

fun fin :: "node \<Rightarrow> node list" where
  "fin (Node nm dm s e st ty du cs) =
     (if ty \<noteq> NvtxT then []
      else filter (\<lambda>c. nstart c \<notin> nstart ` set (concat (map all_leaves (filter (\<lambda>c. ntype c = NvtxT) cs))))
             (filter (\<lambda>c. ntype c = KernelT) cs)
           @ concat (map fin (filter (\<lambda>c. ntype c = NvtxT) cs)))"

definition Fin :: "node list \<Rightarrow> node list" where
  "Fin nodes = concat (map fin nodes)"

text \<open>
  The path of last nodes. \<open>spine_ok d\<close> says that the path has \<open>d\<close> scope nodes,
  \<open>spine_kernels d\<close> lists their kernel children from the root down, and \<open>off_spine d\<close>
  lists every other kernel leaf of the forest. \<open>with_children\<close> replaces the children of
  a node, and \<open>scope_node\<close> is the node \<open>nest\<close> creates for an entry.
\<close>

fun spine_ok :: "nat \<Rightarrow> node list \<Rightarrow> bool" where
  "spine_ok 0 nodes = True"
| "spine_ok (Suc d) nodes =
     (nodes \<noteq> [] \<and> ntype (last nodes) = NvtxT \<and> spine_ok d (children (last nodes)))"

fun off_spine :: "nat \<Rightarrow> node list \<Rightarrow> node list" where
  "off_spine 0 nodes = forest_leaves nodes"
| "off_spine (Suc d) nodes = forest_leaves (butlast nodes) @ off_spine d (children (last nodes))"

fun spine_kernels :: "nat \<Rightarrow> node list \<Rightarrow> node list list" where
  "spine_kernels 0 nodes = []"
| "spine_kernels (Suc d) nodes =
     kern_children (last nodes) # spine_kernels d (children (last nodes))"

definition with_children :: "node \<Rightarrow> node list \<Rightarrow> node" where
  "with_children n cs =
     (case n of Node nm dm s e st ty du cs0 \<Rightarrow> Node nm dm s e st ty du cs)"

definition scope_node :: "entry \<Rightarrow> node" where
  "scope_node entry =
     Node (e_name entry) [] (e_start entry) (e_end entry) None NvtxT None (e_kernels entry)"


section \<open>Floating-point rounding\<close>

text \<open>
  The bit length brackets a positive integer between two powers of two, which gives the
  binary exponent of a positive rational. Rounding to the nearest integer moves a value by
  at most a half and never past an integer, so \<open>py_float\<close> keeps a non-negative value
  between \<open>0\<close> and any integer bound below \<open>2 ^ 53\<close>, and moves a value below
  \<open>2 ^ k\<close> by at most \<open>2 ^ (k - 54)\<close>.
\<close>

lemma bit_length_bounds:
  "0 < n \<Longrightarrow> 1 \<le> bit_length n \<and> 2 ^ nat (bit_length n - 1) \<le> n \<and> n < 2 ^ nat (bit_length n)"
proof (induction n rule: bit_length.induct)
  case (1 n)
  have pos: "\<not> n \<le> 0" using "1.prems" by simp
  have unf: "bit_length n = 1 + bit_length (n div 2)"
    using pos by (subst bit_length.simps) simp
  show ?case
  proof (cases "n = 1")
    case True
    have "bit_length (1 div 2) = 0" by (subst bit_length.simps) simp
    then show ?thesis using unf True by simp
  next
    case False
    then have h: "0 < n div 2" using "1.prems" by linarith
    define l where "l = bit_length (n div 2)"
    have IH: "1 \<le> l" "2 ^ nat (l - 1) \<le> n div 2" "n div 2 < 2 ^ nat l"
      using "1.IH"[OF pos h] by (simp_all add: l_def)
    have p: "(2::int) ^ nat l = 2 * 2 ^ nat (l - 1)"
      using IH(1) by (metis Suc_nat_eq_nat_zadd1 add.commute diff_add_cancel diff_ge_0_iff_ge power_Suc)
    have q: "(2::int) ^ nat (1 + l) = 2 * 2 ^ nat l"
      using IH(1) by (simp add: nat_add_distrib)
    have lo: "2 ^ nat l \<le> n" using p IH(2) by linarith
    have hi: "n < 2 * 2 ^ nat l" using IH(3) by linarith
    show ?thesis using unf IH(1) lo hi q by (simp add: l_def)
  qed
qed

lemma bit_length_powi:
  assumes "0 < n"
  shows "2 powi (bit_length n - 1) \<le> (of_int n :: rat)" and "(of_int n :: rat) < 2 powi (bit_length n)"
proof -
  have b: "1 \<le> bit_length n" "2 ^ nat (bit_length n - 1) \<le> n" "n < 2 ^ nat (bit_length n)"
    using bit_length_bounds[OF assms] by simp_all
  have "(of_int (2 ^ nat (bit_length n - 1)) :: rat) \<le> of_int n"
    using b(2) by (simp only: of_int_le_iff)
  then show "2 powi (bit_length n - 1) \<le> (of_int n :: rat)"
    using b(1) by (simp add: power_int_def)
  have "(of_int n :: rat) < of_int (2 ^ nat (bit_length n))"
    using b(3) by (simp only: of_int_less_iff)
  then show "(of_int n :: rat) < 2 powi (bit_length n)"
    using b(1) by (simp add: power_int_def)
qed

lemma ilog2_bounds:
  assumes "0 < x"
  shows "2 powi (ilog2 x) \<le> x" and "x < 2 powi (ilog2 x + 1)"
proof -
  obtain a b where ab: "quotient_of x = (a, b)" by (cases "quotient_of x") auto
  have bpos: "0 < b" using quotient_of_denom_pos[OF ab] .
  have xeq: "x = of_int a / of_int b" using quotient_of_div[OF ab] .
  have apos: "0 < a" using assms bpos xeq by (simp add: zero_less_divide_iff)
  define d where "d = bit_length a - bit_length b"
  have B: "(0::rat) < of_int b" using bpos by simp
  have two: "(2::rat) \<noteq> 0" by simp
  have lo: "2 powi (d - 1) \<le> x"
  proof -
    have "2 powi (d - 1) * of_int b \<le> (2 powi (d - 1) * 2 powi (bit_length b) :: rat)"
      using bit_length_powi(2)[OF bpos] by (simp add: zero_less_power_int less_imp_le)
    also have "\<dots> = 2 powi (bit_length a - 1)"
      by (simp add: d_def flip: power_int_add)
    also have "\<dots> \<le> of_int a" using bit_length_powi(1)[OF apos] .
    finally show ?thesis using B by (simp add: xeq pos_le_divide_eq)
  qed
  have hi: "x < 2 powi (d + 1)"
  proof -
    have "(of_int a :: rat) < 2 powi (bit_length a)" using bit_length_powi(2)[OF apos] .
    also have "\<dots> = 2 powi (d + 1) * 2 powi (bit_length b - 1)"
      by (simp add: d_def flip: power_int_add)
    also have "\<dots> \<le> 2 powi (d + 1) * of_int b"
      using bit_length_powi(1)[OF bpos] by (simp add: zero_less_power_int less_imp_le)
    finally show ?thesis using B by (simp add: xeq pos_divide_less_eq)
  qed
  have il: "ilog2 x = (if 2 powi d \<le> x then d else d - 1)"
    by (simp add: ilog2_def ab d_def Let_def)
  show "2 powi (ilog2 x) \<le> x" using lo il by simp
  show "x < 2 powi (ilog2 x + 1)" using hi il by (simp add: not_le)
qed

lemma ilog2_less:
  assumes "0 < x" "x < 2 powi k"
  shows "ilog2 x < k"
proof (rule ccontr)
  assume "\<not> ilog2 x < k"
  then have "(2::rat) powi k \<le> 2 powi (ilog2 x)" by (simp add: power_int_increasing)
  then show False using ilog2_bounds(1)[OF assms(1)] assms(2) by linarith
qed

lemma round_half_even_cases:
  "round_half_even s = \<lfloor>s\<rfloor> \<and> s - of_int \<lfloor>s\<rfloor> \<le> 1 / 2
   \<or> round_half_even s = \<lfloor>s\<rfloor> + 1 \<and> 1 / 2 \<le> s - of_int \<lfloor>s\<rfloor>"
  by (simp add: round_half_even_def Let_def)

lemma round_half_even_err: "\<bar>of_int (round_half_even s) - s\<bar> \<le> 1 / 2"
proof -
  have "of_int \<lfloor>s\<rfloor> \<le> s" "s < of_int \<lfloor>s\<rfloor> + 1" by linarith+
  then show ?thesis using round_half_even_cases[of s] by (auto simp: abs_le_iff)
qed

lemma round_half_even_le:
  assumes "s \<le> of_int k"
  shows "round_half_even s \<le> k"
proof -
  have f: "\<lfloor>s\<rfloor> \<le> k" using assms by (metis floor_mono floor_of_int)
  show ?thesis
  proof (cases "round_half_even s = \<lfloor>s\<rfloor>")
    case True
    then show ?thesis using f by simp
  next
    case False
    then have c: "round_half_even s = \<lfloor>s\<rfloor> + 1" "1 / 2 \<le> s - of_int \<lfloor>s\<rfloor>"
      using round_half_even_cases[of s] by auto
    then have "of_int \<lfloor>s\<rfloor> < s" by simp
    then have "of_int \<lfloor>s\<rfloor> < (of_int k :: rat)" using assms by linarith
    then have "\<lfloor>s\<rfloor> < k" by (simp only: of_int_less_iff)
    then show ?thesis using c(1) by simp
  qed
qed

lemma round_half_even_ge:
  assumes "of_int k \<le> s"
  shows "k \<le> round_half_even s"
proof -
  have "k \<le> \<lfloor>s\<rfloor>" using assms by (simp add: le_floor_iff)
  then show ?thesis using round_half_even_cases[of s] by auto
qed

lemma round_half_even_of_int: "round_half_even (of_int k) = k"
  by (simp add: round_half_even_def)

lemma py_float_nonneg:
  assumes "0 \<le> x"
  shows "0 \<le> py_float x"
proof (cases "x = 0")
  case True
  then show ?thesis by (simp add: py_float_def)
next
  case False
  define q :: rat where "q = 2 powi (max (ilog2 \<bar>x\<bar>) (- 1022) - 52)"
  have qpos: "0 < q" by (simp add: q_def zero_less_power_int)
  have "of_int 0 \<le> x / q" using assms qpos by simp
  then have "0 \<le> round_half_even (x / q)" by (rule round_half_even_ge)
  then show ?thesis using False qpos by (simp add: py_float_def Let_def flip: q_def)
qed

lemma py_float_le_int:
  assumes "0 \<le> x" "x \<le> of_int n" "n < 2 ^ 53"
  shows "py_float x \<le> of_int n"
proof (cases "x = 0")
  case True
  then show ?thesis using assms by (simp add: py_float_def)
next
  case False
  then have xpos: "0 < x" using assms(1) by simp
  define e where "e = max (ilog2 \<bar>x\<bar>) (- 1022)"
  define q :: rat where "q = 2 powi (e - 52)"
  define k where "k = nat (52 - e)"
  have qpos: "0 < q" by (simp add: q_def zero_less_power_int)
  have "(of_int n :: rat) < of_int (2 ^ 53)" using assms(3) by (simp only: of_int_less_iff)
  then have "x < 2 powi 53" using assms(2) by simp
  then have "ilog2 x < 53" using ilog2_less[OF xpos] by simp
  then have e52: "e \<le> 52" using xpos by (simp add: e_def)
  have qk: "q = 1 / 2 ^ k"
  proof -
    have "e - 52 = - int k" using e52 by (simp add: k_def)
    then show ?thesis by (simp add: q_def power_int_minus_divide)
  qed
  have "x / q \<le> of_int n / q" using assms(2) qpos by (simp add: divide_right_mono)
  also have "of_int n / q = of_int (n * 2 ^ k)" by (simp add: qk)
  finally have "round_half_even (x / q) \<le> n * 2 ^ k" by (rule round_half_even_le)
  then have "(of_int (round_half_even (x / q)) :: rat) \<le> of_int (n * 2 ^ k)"
    by (simp only: of_int_le_iff)
  then have "of_int (round_half_even (x / q)) * q \<le> of_int (n * 2 ^ k) * q"
    using qpos by (simp only: mult_le_cancel_right_pos)
  also have "of_int (n * 2 ^ k) * q = of_int n" by (simp add: qk)
  finally show ?thesis using False by (simp add: py_float_def Let_def flip: q_def e_def)
qed

lemma py_float_err:
  assumes "\<bar>x\<bar> < 2 powi k" "- 1021 \<le> k"
  shows "\<bar>py_float x - x\<bar> \<le> 2 powi (k - 54)"
proof (cases "x = 0")
  case True
  then show ?thesis by (simp add: py_float_def zero_less_power_int less_imp_le)
next
  case False
  then have xpos: "0 < \<bar>x\<bar>" by simp
  define e where "e = max (ilog2 \<bar>x\<bar>) (- 1022)"
  define q :: rat where "q = 2 powi (e - 52)"
  have qpos: "0 < q" by (simp add: q_def zero_less_power_int)
  have "ilog2 \<bar>x\<bar> < k" using ilog2_less[OF xpos assms(1)] .
  then have ek: "e - 53 \<le> k - 54" using assms(2) by (simp add: e_def)
  have pf: "py_float x = of_int (round_half_even (x / q)) * q"
    using False by (simp add: py_float_def Let_def flip: q_def e_def)
  have "py_float x - x = (of_int (round_half_even (x / q)) - x / q) * q"
    using qpos by (simp add: pf left_diff_distrib)
  then have "\<bar>py_float x - x\<bar> = \<bar>of_int (round_half_even (x / q)) - x / q\<bar> * q"
    using qpos by (simp add: abs_mult)
  also have "\<dots> \<le> 1 / 2 * q"
    using round_half_even_err[of "x / q"] qpos by (simp only: mult_le_cancel_right_pos)
  also have "1 / 2 * q = 2 powi (e - 53)"
  proof -
    have "(2::rat) powi ((e - 53) + 1) = 2 powi (e - 53) * 2"
      by (rule power_int_add_1) simp
    moreover have "e - 53 + 1 = e - 52" by simp
    ultimately have "q = 2 powi (e - 53) * 2" unfolding q_def by simp
    then show ?thesis by simp
  qed
  also have "\<dots> \<le> 2 powi (k - 54)" using ek by (simp add: power_int_increasing)
  finally show ?thesis .
qed

text \<open>Rounding to decimals keeps a value between \<open>0\<close> and an integer bound.\<close>

lemma py_round_range:
  assumes "0 \<le> x" "x \<le> of_int b" "b * 10 ^ nd < 2 ^ 53"
  shows "0 \<le> py_round nd x \<and> py_round nd x \<le> of_int b"
proof -
  define p :: rat where "p = 10 ^ nd"
  define c where "c = round_half_even (x * p)"
  have ppos: "0 < p" by (simp add: p_def)
  have pint: "p = of_int (10 ^ nd)" by (simp add: p_def)
  have "of_int 0 \<le> x * p" using assms(1) ppos by simp
  then have c0: "0 \<le> c" unfolding c_def by (rule round_half_even_ge)
  have "x * p \<le> of_int (b * 10 ^ nd)" using assms(2) ppos by (simp add: pint)
  then have cb: "c \<le> b * 10 ^ nd" unfolding c_def by (rule round_half_even_le)
  have r0: "0 \<le> of_int c / p" using c0 ppos by simp
  have "(of_int c :: rat) \<le> of_int (b * 10 ^ nd)" using cb by (simp only: of_int_le_iff)
  then have "of_int c \<le> of_int b * p" by (simp add: pint)
  then have rb: "of_int c / p \<le> of_int b" using ppos by (simp add: pos_divide_le_eq)
  have b0: "0 \<le> b"
  proof -
    have "(0::rat) \<le> of_int b" using assms(1,2) by linarith
    then show ?thesis by simp
  qed
  have "b * 1 \<le> b * 10 ^ nd" using b0 by (intro mult_left_mono) simp_all
  then have b53: "b < 2 ^ 53" using assms(3) by simp
  have eq: "py_round nd x = py_float (of_int c / p)" by (simp add: py_round_def c_def p_def)
  show ?thesis unfolding eq using py_float_nonneg[OF r0] py_float_le_int[OF r0 rb b53] by simp
qed


section \<open>Overlap partition\<close>

lemma merge_loop_run: "merge_loop (ms @ [cur]) rest = ms @ merge_run cur rest"
proof (induction rest arbitrary: ms cur)
  case Nil
  then show ?case by simp
next
  case (Cons x rest)
  obtain s e where x: "x = (s, e)" by (cases x)
  show ?case
  proof (cases "s \<le> snd cur")
    case True
    then show ?thesis using Cons.IH[of ms "(fst cur, max (snd cur) e)"] x by simp
  next
    case False
    then show ?thesis using Cons.IH[of "ms @ [cur]" "(s, e)"] x by simp
  qed
qed

lemma merge_run_hd: "\<exists>b' tl. merge_run (a, b) rest = (a, b') # tl \<and> b \<le> b'"
proof (induction rest arbitrary: a b)
  case Nil
  then show ?case by simp
next
  case (Cons x rest)
  obtain s e where x: "x = (s, e)" by (cases x)
  show ?case
  proof (cases "s \<le> b")
    case True
    from Cons.IH[of a "max b e"] obtain b' tl where
      "merge_run (a, max b e) rest = (a, b') # tl" "max b e \<le> b'" by blast
    with True x show ?thesis by auto
  next
    case False
    with x show ?thesis by auto
  qed
qed

lemma cov_Cons: "cov (x # xs) = cells x \<union> cov xs"
  by (simp add: cov_def)

lemma cov_Nil: "cov [] = {}"
  by (simp add: cov_def)

lemma cells_join:
  "a \<le> s \<Longrightarrow> s \<le> b \<Longrightarrow> cells (a, max b e) = cells (a, b) \<union> cells (s, e)"
  by (auto simp: cells_def)

lemma merge_run_separated:
  "sorted (map fst rest) \<Longrightarrow> \<forall>x\<in>set rest. a \<le> fst x \<and> fst x \<le> snd x \<Longrightarrow> a \<le> b \<Longrightarrow>
     separated (merge_run (a, b) rest) \<and> cov (merge_run (a, b) rest) = cov ((a, b) # rest)"
proof (induction rest arbitrary: a b)
  case Nil
  then show ?case by (simp add: cov_def)
next
  case (Cons x rest)
  obtain s e where x: "x = (s, e)" by (cases x)
  from Cons.prems x have as: "a \<le> s" and se: "s \<le> e"
    and srt: "sorted (map fst rest)" and ge: "\<forall>y\<in>set rest. s \<le> fst y \<and> fst y \<le> snd y"
    by auto
  show ?case
  proof (cases "s \<le> b")
    case True
    have "\<forall>y\<in>set rest. a \<le> fst y \<and> fst y \<le> snd y" using ge as by auto
    moreover have "a \<le> max b e" using Cons.prems(3) by simp
    ultimately have ih: "separated (merge_run (a, max b e) rest)"
      "cov (merge_run (a, max b e) rest) = cov ((a, max b e) # rest)"
      using Cons.IH[of a "max b e"] srt by auto
    from True x have eq: "merge_run (a, b) (x # rest) = merge_run (a, max b e) rest" by simp
    show ?thesis unfolding eq using ih cells_join[OF as True, of e] x
      by (simp add: cov_Cons Un_assoc)
  next
    case False
    have ih: "separated (merge_run (s, e) rest)"
      "cov (merge_run (s, e) rest) = cov ((s, e) # rest)"
      using Cons.IH[of s e] srt ge se by auto
    obtain b' tl where hd: "merge_run (s, e) rest = (s, b') # tl"
      using merge_run_hd[of s e rest] by blast
    from False x have eq: "merge_run (a, b) (x # rest) = (a, b) # merge_run (s, e) rest" by simp
    show ?thesis unfolding eq using ih hd False Cons.prems(3) x
      by (simp add: cov_Cons)
  qed
qed

lemma sorted_fst: "sorted (xs :: (int \<times> int) list) \<Longrightarrow> sorted (map fst xs)"
  by (induction xs) (auto simp: less_eq_prod_def)

lemma merge_intervals_separated:
  assumes "\<forall>x\<in>set ivs. fst x \<le> snd x"
  shows "separated (merge_intervals ivs) \<and> cov (merge_intervals ivs) = cov ivs"
proof (cases "ivs = []")
  case True
  then show ?thesis by (simp add: merge_intervals_def cov_def)
next
  case False
  define xs where "xs = sort ivs"
  have ne: "xs \<noteq> []" using False unfolding xs_def by (metis length_sort length_0_conv)
  then obtain a b rest where xs: "xs = (a, b) # rest" by (cases xs) auto
  have srt: "sorted (map fst xs)" unfolding xs_def by (rule sorted_fst) simp
  have st: "set xs = set ivs" unfolding xs_def by simp
  have 1: "sorted (map fst rest)" using srt xs by simp
  have 2: "\<forall>x\<in>set rest. a \<le> fst x \<and> fst x \<le> snd x"
    using srt xs assms st by auto
  have "(a, b) \<in> set ivs" using st xs by auto
  then have 3: "a \<le> b" using assms by fastforce
  have "merge_intervals ivs = merge_loop [(a, b)] rest"
    using False xs unfolding merge_intervals_def xs_def by (simp add: Let_def)
  also have "\<dots> = merge_run (a, b) rest" using merge_loop_run[of "[]" "(a, b)" rest] by simp
  finally have eq: "merge_intervals ivs = merge_run (a, b) rest" .
  have "cov xs = cov ivs" using st by (simp add: cov_def)
  then show ?thesis using merge_run_separated[OF 1 2 3] eq xs by simp
qed

lemma separated_lower: "separated (y # r) \<Longrightarrow> z \<in> cov (y # r) \<Longrightarrow> fst y \<le> z"
proof (induction r arbitrary: y)
  case Nil
  then show ?case by (auto simp: cov_def cells_def)
next
  case (Cons x r)
  from Cons.prems have "z \<in> cells y \<or> z \<in> cov (x # r)" by (simp add: cov_Cons)
  then show ?case
  proof
    assume "z \<in> cells y" then show ?thesis by (simp add: cells_def)
  next
    assume "z \<in> cov (x # r)"
    then have "fst x \<le> z" using Cons.IH[of x] Cons.prems(1) by simp
    then show ?thesis using Cons.prems(1) by simp
  qed
qed

lemma separated_tl: "separated (x # r) \<Longrightarrow> separated r"
  by (cases r) auto

lemma separated_disjoint: "separated (x # r) \<Longrightarrow> cells x \<inter> cov r = {}"
proof (cases r)
  case Nil
  then show ?thesis by (simp add: cov_def)
next
  case (Cons y r')
  assume s: "separated (x # r)"
  { fix z assume "z \<in> cells x" "z \<in> cov r"
    then have "z < snd x" "fst y \<le> z" using separated_lower[of y r' z] s Cons
      by (auto simp: cells_def)
    then have False using s Cons by simp }
  then show ?thesis by auto
qed

lemma finite_cov: "finite (cov xs)"
  by (simp add: cov_def cells_def)

lemma card_cells: "int (card (cells x)) = (if fst x \<le> snd x then snd x - fst x else 0)"
  by (simp add: cells_def)

lemma total_covered_card: "separated ms \<Longrightarrow> total_covered ms = int (card (cov ms))"
proof (induction ms)
  case Nil
  then show ?case by (simp add: total_covered_def cov_def)
next
  case (Cons x ms)
  have wf: "fst x \<le> snd x" using Cons.prems by (cases ms) auto
  have d: "cells x \<inter> cov ms = {}" using separated_disjoint[OF Cons.prems] .
  have "card (cov (x # ms)) = card (cells x) + card (cov ms)"
    unfolding cov_Cons using d by (simp add: card_Un_disjoint finite_cov cells_def)
  moreover have "total_covered (x # ms) = (snd x - fst x) + total_covered ms"
    by (simp add: total_covered_def case_prod_beta)
  ultimately show ?case using Cons.IH separated_tl[OF Cons.prems] card_cells[of x] wf by simp
qed

lemma ov_card: "ov x y = int (card (cells x \<inter> cells y))"
proof -
  have "cells x \<inter> cells y = {max (fst x) (fst y) ..< min (snd x) (snd y)}"
    by (auto simp: cells_def)
  moreover have "int (card {a..<b}) = (if a < b then b - a else 0)" for a b :: int
    by simp
  ultimately show ?thesis by (simp only: ov_def Let_def)
qed

lemma ov_sum_card:
  "separated b \<Longrightarrow> (\<Sum>y\<leftarrow>b. ov x y) = int (card (cells x \<inter> cov b))"
proof (induction b)
  case Nil
  then show ?case by (simp add: cov_def)
next
  case (Cons y b)
  have d: "cells y \<inter> cov b = {}" using separated_disjoint[OF Cons.prems] .
  have "cells x \<inter> cov (y # b) = (cells x \<inter> cells y) \<union> (cells x \<inter> cov b)"
    by (auto simp: cov_Cons)
  moreover have "(cells x \<inter> cells y) \<inter> (cells x \<inter> cov b) = {}" using d by auto
  ultimately have "card (cells x \<inter> cov (y # b)) =
      card (cells x \<inter> cells y) + card (cells x \<inter> cov b)"
    by (simp add: card_Un_disjoint finite_cov cells_def)
  then show ?case using Cons.IH separated_tl[OF Cons.prems] by (simp add: ov_card)
qed

lemma ov_double_sum_card:
  "separated a \<Longrightarrow> separated b \<Longrightarrow>
     (\<Sum>x\<leftarrow>a. \<Sum>y\<leftarrow>b. ov x y) = int (card (cov a \<inter> cov b))"
proof (induction a)
  case Nil
  then show ?case by (simp add: cov_def)
next
  case (Cons x a)
  have d: "cells x \<inter> cov a = {}" using separated_disjoint[OF Cons.prems(1)] .
  have "cov (x # a) \<inter> cov b = (cells x \<inter> cov b) \<union> (cov a \<inter> cov b)"
    by (auto simp: cov_Cons)
  moreover have "(cells x \<inter> cov b) \<inter> (cov a \<inter> cov b) = {}" using d by auto
  ultimately have "card (cov (x # a) \<inter> cov b) =
      card (cells x \<inter> cov b) + card (cov a \<inter> cov b)"
    by (simp add: card_Un_disjoint finite_cov cells_def)
  then show ?case
    using Cons.IH separated_tl[OF Cons.prems(1)] Cons.prems(2) ov_sum_card[OF Cons.prems(2), of x]
    by simp
qed

lemma separated_fst_le: "separated (y # r) \<Longrightarrow> z \<in> set (y # r) \<Longrightarrow> fst y \<le> fst z"
proof (induction r arbitrary: y)
  case Nil
  then show ?case by simp
next
  case (Cons x r)
  show ?case
  proof (cases "z = y")
    case True
    then show ?thesis by simp
  next
    case False
    then have "z \<in> set (x # r)" using Cons.prems(2) by simp
    then have "fst x \<le> fst z" using Cons.IH[of x] Cons.prems(1) by simp
    then show ?thesis using Cons.prems(1) by simp
  qed
qed

lemma separated_sorted_wrt:
  "separated b \<Longrightarrow> sorted_wrt (\<lambda>x y. snd x < fst y) b \<and> (\<forall>x\<in>set b. fst x \<le> snd x)"
proof (induction b rule: separated.induct)
  case 1
  then show ?case by simp
next
  case (2 x)
  then show ?case by simp
next
  case (3 x y r)
  have "\<forall>z\<in>set (y # r). snd x < fst z"
    using separated_fst_le[of y r] "3.prems" by fastforce
  then show ?case using 3 by simp
qed

lemma separated_sorted_fst: "separated b \<Longrightarrow> sorted (map fst b)"
proof -
  assume "separated b"
  then have s: "sorted_wrt (\<lambda>x y. snd x < fst y) b" and w: "\<forall>x\<in>set b. fst x \<le> snd x"
    using separated_sorted_wrt by auto
  have "sorted_wrt (\<lambda>x y. fst x \<le> fst y) b"
    by (rule sorted_wrt_mono_rel[OF _ s]) (use w in fastforce)
  then show ?thesis by (simp add: sorted_map)
qed

lemma ov_zero_right: "snd x \<le> fst y \<Longrightarrow> ov x y = 0"
  by (simp add: ov_def Let_def)

lemma ov_zero_left: "snd y \<le> fst x \<Longrightarrow> ov x y = 0"
  by (simp add: ov_def Let_def)

lemma sweep_k_sum:
  "sorted (map fst b) \<Longrightarrow>
     sweep_k b k a_start a_end tot = tot + (\<Sum>y\<leftarrow>drop k b. ov (a_start, a_end) y)"
proof (induction b k a_start a_end tot rule: sweep_k.induct)
  case (1 b k a_start a_end tot)
  show ?case
  proof (cases "k < length b \<and> fst (b ! k) < a_end")
    case True
    define t' where "t' = tot + ov (a_start, a_end) (b ! k)"
    have tq: "(if max a_start (fst (b ! k)) < min a_end (snd (b ! k))
               then tot + (min a_end (snd (b ! k)) - max a_start (fst (b ! k)))
               else tot) = t'"
      unfolding t'_def ov_def Let_def by simp
    have "sweep_k b k a_start a_end tot =
        sweep_k b (k + 1) a_start a_end
          (if max a_start (fst (b ! k)) < min a_end (snd (b ! k))
           then tot + (min a_end (snd (b ! k)) - max a_start (fst (b ! k)))
           else tot)"
      by (subst sweep_k.simps) (simp only: True if_True Let_def simp_thms)
    then have step: "sweep_k b k a_start a_end tot = sweep_k b (k + 1) a_start a_end t'"
      by (simp only: tq)
    have ih: "sweep_k b (k + 1) a_start a_end t' =
        t' + (\<Sum>y\<leftarrow>drop (k + 1) b. ov (a_start, a_end) y)"
      using "1.IH"[OF True refl refl "1.prems"] by (simp only: tq)
    have "drop k b = b ! k # drop (k + 1) b" using True by (simp add: Cons_nth_drop_Suc)
    then show ?thesis using step ih by (simp add: t'_def)
  next
    case False
    have step: "sweep_k b k a_start a_end tot = tot"
      using False by (subst sweep_k.simps) auto
    have "\<forall>y\<in>set (drop k b). ov (a_start, a_end) y = 0"
    proof
      fix y assume y: "y \<in> set (drop k b)"
      then have kl: "k < length b" by (cases "k < length b") auto
      then have ge: "a_end \<le> fst (b ! k)" using False by auto
      from y obtain i where i: "i < length (drop k b)" "y = drop k b ! i"
        by (auto simp: in_set_conv_nth)
      then have "y = b ! (k + i)" "k + i < length b" by auto
      then have "fst (b ! k) \<le> fst y" using "1.prems" kl
        by (metis le_add1 length_map nth_map sorted_nth_mono)
      then show "ov (a_start, a_end) y = 0" using ge by (simp add: ov_zero_right)
    qed
    then have "(\<Sum>y\<leftarrow>drop k b. ov (a_start, a_end) y) = 0"
      by (simp add: sum_list_0 cong: map_cong)
    then show ?thesis using step by simp
  qed
qed

lemma advance_j_spec:
  "j \<le> advance_j b j s \<and> (j \<le> length b \<longrightarrow> advance_j b j s \<le> length b) \<and>
     (\<forall>i. j \<le> i \<and> i < advance_j b j s \<longrightarrow> snd (b ! i) \<le> s)"
proof (induction b j s rule: advance_j.induct)
  case (1 b j s)
  show ?case
  proof (cases "j < length b \<and> snd (b ! j) \<le> s")
    case True
    have step: "advance_j b j s = advance_j b (j + 1) s"
      using True by (subst advance_j.simps) simp
    have ih: "j + 1 \<le> advance_j b (j + 1) s"
      "advance_j b (j + 1) s \<le> length b"
      "\<forall>i. j + 1 \<le> i \<and> i < advance_j b (j + 1) s \<longrightarrow> snd (b ! i) \<le> s"
      using "1.IH"[OF True] True by auto
    have "\<forall>i. j \<le> i \<and> i < advance_j b (j + 1) s \<longrightarrow> snd (b ! i) \<le> s"
    proof (intro allI impI)
      fix i assume "j \<le> i \<and> i < advance_j b (j + 1) s"
      then show "snd (b ! i) \<le> s" using ih(3) True by (cases "i = j") auto
    qed
    then show ?thesis unfolding step using ih by auto
  next
    case False
    have step: "advance_j b j s = j"
      using False by (subst advance_j.simps) auto
    show ?thesis unfolding step by simp
  qed
qed

lemma sweep_a_sum:
  "sorted (map fst b) \<Longrightarrow> sorted (map fst a) \<Longrightarrow> j \<le> length b \<Longrightarrow>
   \<forall>i<j. \<forall>x\<in>set a. snd (b ! i) \<le> fst x \<Longrightarrow>
     sweep_a b j tot a = tot + (\<Sum>x\<leftarrow>a. \<Sum>y\<leftarrow>b. ov x y)"
proof (induction a arbitrary: j tot)
  case Nil
  then show ?case by simp
next
  case (Cons x a)
  obtain s e where x: "x = (s, e)" by (cases x)
  define j' where "j' = advance_j b j s"
  have j': "j \<le> j'" "j' \<le> length b" "\<forall>i. j \<le> i \<and> i < j' \<longrightarrow> snd (b ! i) \<le> s"
    using advance_j_spec[of j b s] Cons.prems(3) unfolding j'_def by auto
  have low: "\<forall>i<j'. snd (b ! i) \<le> s"
  proof (intro allI impI)
    fix i assume "i < j'"
    show "snd (b ! i) \<le> s"
    proof (cases "i < j")
      case True
      then show ?thesis using Cons.prems(4) x by auto
    next
      case False
      then show ?thesis using j'(3) \<open>i < j'\<close> by auto
    qed
  qed
  have "\<forall>y\<in>set (take j' b). ov x y = 0"
  proof
    fix y assume "y \<in> set (take j' b)"
    then obtain i where "i < j'" "i < length b" "y = b ! i"
      by (auto simp: in_set_conv_nth)
    then show "ov x y = 0" using low x by (simp add: ov_zero_left)
  qed
  then have z: "(\<Sum>y\<leftarrow>take j' b. ov x y) = 0"
    by (simp add: sum_list_0 cong: map_cong)
  have "(\<Sum>y\<leftarrow>b. ov x y) = (\<Sum>y\<leftarrow>take j' b. ov x y) + (\<Sum>y\<leftarrow>drop j' b. ov x y)"
    by (metis append_take_drop_id map_append sum_list_append)
  then have row: "(\<Sum>y\<leftarrow>drop j' b. ov x y) = (\<Sum>y\<leftarrow>b. ov x y)" using z by simp
  have k: "sweep_k b j' s e tot = tot + (\<Sum>y\<leftarrow>b. ov x y)"
    using sweep_k_sum[OF Cons.prems(1), of j' s e tot] row x by simp
  have nxt: "\<forall>i<j'. \<forall>x'\<in>set a. snd (b ! i) \<le> fst x'"
  proof (intro allI impI ballI)
    fix i x' assume "i < j'" "x' \<in> set a"
    then have "s \<le> fst x'" using Cons.prems(2) x by auto
    then show "snd (b ! i) \<le> fst x'" using low \<open>i < j'\<close> by force
  qed
  have srt: "sorted (map fst a)" using Cons.prems(2) by simp
  have "sweep_a b j tot (x # a) = sweep_a b j' (sweep_k b j' s e tot) a"
    using x by (simp add: j'_def Let_def)
  also have "\<dots> = sweep_k b j' s e tot + (\<Sum>x\<leftarrow>a. \<Sum>y\<leftarrow>b. ov x y)"
    using Cons.IH[OF Cons.prems(1) srt j'(2) nxt] .
  finally show ?case using k by simp
qed

lemma intersection_coverage_card:
  assumes "separated a" "separated b"
  shows "intersection_coverage a b = int (card (cov a \<inter> cov b))"
proof (cases "a = [] \<or> b = []")
  case True
  then show ?thesis by (auto simp: intersection_coverage_def cov_def)
next
  case False
  have "sweep_a b 0 0 a = 0 + (\<Sum>x\<leftarrow>a. \<Sum>y\<leftarrow>b. ov x y)"
    by (rule sweep_a_sum) (use assms separated_sorted_fst in auto)
  then show ?thesis using False ov_double_sum_card[OF assms]
    by (simp add: intersection_coverage_def)
qed

lemma cov_span:
  assumes "\<forall>x\<in>set ivs. lo \<le> fst x \<and> snd x \<le> hi"
  shows "cov ivs \<subseteq> {lo..<hi}"
  using assms by (fastforce simp: cov_def cells_def)

lemma overlap_quantities_partition:
  assumes ne: "ks \<noteq> []" and wf: "\<forall>k\<in>set ks. k_start k \<le> k_end k"
  shows "compute_only_ns (overlap_quantities ks) + nccl_only_ns (overlap_quantities ks)
           + overlap_ns (overlap_quantities ks) + max 0 (idle_ns (overlap_quantities ks))
         = total_ns (overlap_quantities ks)
       \<and> overlap_ns (overlap_quantities ks)
           \<le> min (compute_ns (overlap_quantities ks)) (nccl_ns (overlap_quantities ks))
       \<and> 0 \<le> compute_only_ns (overlap_quantities ks)
       \<and> 0 \<le> nccl_only_ns (overlap_quantities ks)
       \<and> 0 \<le> idle_ns (overlap_quantities ks)
       \<and> compute_ns (overlap_quantities ks) = int (card (cov (compute_intervals ks)))
       \<and> nccl_ns (overlap_quantities ks) = int (card (cov (nccl_intervals ks)))
       \<and> overlap_ns (overlap_quantities ks)
           = int (card (cov (compute_intervals ks) \<inter> cov (nccl_intervals ks)))
       \<and> total_ns (overlap_quantities ks)
           = Max (set (map k_end ks)) - Min (set (map k_start ks))"
proof -
  define lo where "lo = Min (set (map k_start ks))"
  define hi where "hi = Max (set (map k_end ks))"
  define cm where "cm = merge_intervals (compute_intervals ks)"
  define nm where "nm = merge_intervals (nccl_intervals ks)"
  define A where "A = cov cm"
  define B where "B = cov nm"
  have wfc: "\<forall>x\<in>set (compute_intervals ks). fst x \<le> snd x"
    using wf by (auto simp: compute_intervals_def)
  have wfn: "\<forall>x\<in>set (nccl_intervals ks). fst x \<le> snd x"
    using wf by (auto simp: nccl_intervals_def)
  have sc: "separated cm" and cc: "A = cov (compute_intervals ks)"
    using merge_intervals_separated[OF wfc] by (auto simp: cm_def A_def)
  have sn: "separated nm" and cn: "B = cov (nccl_intervals ks)"
    using merge_intervals_separated[OF wfn] by (auto simp: nm_def B_def)
  have bounds: "\<forall>k\<in>set ks. lo \<le> k_start k \<and> k_end k \<le> hi"
    unfolding lo_def hi_def by auto
  have "A \<subseteq> {lo..<hi}" unfolding cc
    by (rule cov_span) (use bounds in \<open>auto simp: compute_intervals_def\<close>)
  moreover have "B \<subseteq> {lo..<hi}" unfolding cn
    by (rule cov_span) (use bounds in \<open>auto simp: nccl_intervals_def\<close>)
  ultimately have sub: "A \<union> B \<subseteq> {lo..<hi}" by auto
  obtain k where "k \<in> set ks" using ne by (cases ks) auto
  then have lohi: "lo \<le> hi" using bounds wf by force
  have fin: "finite A" "finite B" by (simp_all add: A_def B_def finite_cov)
  have "card (A \<union> B) \<le> card {lo..<hi}" by (rule card_mono) (use sub in auto)
  then have un: "int (card (A \<union> B)) \<le> hi - lo" using lohi by simp
  have ui: "int (card (A \<union> B)) + int (card (A \<inter> B)) = int (card A) + int (card B)"
    using card_Un_Int[OF fin] by simp
  have ia: "card (A \<inter> B) \<le> card A" by (rule card_mono) (use fin in auto)
  have ib: "card (A \<inter> B) \<le> card B" by (rule card_mono) (use fin in auto)
  have c: "total_covered cm = int (card A)" using total_covered_card[OF sc] by (simp add: A_def)
  have n: "total_covered nm = int (card B)" using total_covered_card[OF sn] by (simp add: B_def)
  have i: "intersection_coverage cm nm = int (card (A \<inter> B))"
    using intersection_coverage_card[OF sc sn] by (simp add: A_def B_def)
  have q: "overlap_quantities ks =
      \<lparr>compute_ns = int (card A), nccl_ns = int (card B), overlap_ns = int (card (A \<inter> B)),
       compute_only_ns = int (card A) - int (card (A \<inter> B)),
       nccl_only_ns = int (card B) - int (card (A \<inter> B)),
       idle_ns = hi - lo - (int (card A) - int (card (A \<inter> B)))
                 - (int (card B) - int (card (A \<inter> B))) - int (card (A \<inter> B)),
       total_ns = hi - lo\<rparr>"
    unfolding overlap_quantities_def Let_def
    by (simp only: c n i flip: lo_def hi_def cm_def nm_def)
  show ?thesis unfolding q using un ui ia ib by (simp add: lo_def hi_def flip: cc cn)
qed

text \<open>
  The bound on the overlap needs kernel intervals with \<open>start \<le> end\<close>, the invariant of
  a time interval: for a single collective kernel that ends before it starts the covered
  collective time is negative and the overlap is \<open>0\<close>.
\<close>

lemma overlap_bound_needs_ordered_intervals:
  "overlap_quantities (kernels inverted_profile 0 None) =
     \<lparr>compute_ns = 0, nccl_ns = - 1, overlap_ns = 0, compute_only_ns = 0,
      nccl_only_ns = - 1, idle_ns = 0, total_ns = - 1\<rparr>
   \<and> \<not> overlap_ns (overlap_quantities (kernels inverted_profile 0 None))
         \<le> min (compute_ns (overlap_quantities (kernels inverted_profile 0 None)))
               (nccl_ns (overlap_quantities (kernels inverted_profile 0 None)))"
  by code_simp


text \<open>
  Claim C1, as the code has it. For a device and window with at least one kernel, where
  every kernel interval has \<open>start \<le> end\<close>, the nanosecond quantities that the overlap
  analysis computes satisfy
  \<open>compute_only_ns + nccl_only_ns + overlap_ns + max(0, idle_ns) = total_ns\<close> and
  \<open>overlap_ns \<le> min(compute_ns, nccl_ns)\<close>. Here \<open>compute_ns\<close> and \<open>nccl_ns\<close> are
  the numbers of nanoseconds that the compute kernels and the collective kernels cover,
  \<open>overlap_ns\<close> is the number of nanoseconds that both cover, and \<open>total_ns\<close> is the
  span from the earliest kernel start to the latest kernel end. Merging an interval list
  keeps the nanoseconds it covers. The idle time and the exclusive parts are non-negative,
  so the clamp changes nothing. The analysis returns each
  quantity divided by \<open>1e6\<close> and rounded to two decimal places.
\<close>

theorem overlap_partition:
  fixes prof :: profile and device :: int and trim :: "(int \<times> int) option"
  defines "ks \<equiv> kernels prof device trim"
  defines "q \<equiv> overlap_quantities (kernels prof device trim)"
  assumes "kernels prof device trim \<noteq> []"
    and "\<forall>k\<in>set (kernels prof device trim). k_start k \<le> k_end k"
  shows "compute_only_ns q + nccl_only_ns q + overlap_ns q + max 0 (idle_ns q) = total_ns q
       \<and> overlap_ns q \<le> min (compute_ns q) (nccl_ns q)
       \<and> 0 \<le> idle_ns q \<and> 0 \<le> compute_only_ns q \<and> 0 \<le> nccl_only_ns q
       \<and> compute_only_ns q = compute_ns q - overlap_ns q
       \<and> nccl_only_ns q = nccl_ns q - overlap_ns q
       \<and> compute_ns q = total_covered (merge_intervals (compute_intervals ks))
       \<and> nccl_ns q = total_covered (merge_intervals (nccl_intervals ks))
       \<and> cov (merge_intervals (compute_intervals ks)) = cov (compute_intervals ks)
       \<and> cov (merge_intervals (nccl_intervals ks)) = cov (nccl_intervals ks)
       \<and> compute_ns q = int (card (cov (compute_intervals ks)))
       \<and> nccl_ns q = int (card (cov (nccl_intervals ks)))
       \<and> overlap_ns q = int (card (cov (compute_intervals ks) \<inter> cov (nccl_intervals ks)))
       \<and> total_ns q = Max (set (map k_end ks)) - Min (set (map k_start ks))
       \<and> overlap_analysis prof device trim =
           Report
             \<lparr>compute_only_ms = py_round 2 (int_float_truediv (compute_only_ns q) 1000000),
              nccl_only_ms = py_round 2 (int_float_truediv (nccl_only_ns q) 1000000),
              overlap_ms = py_round 2 (int_float_truediv (overlap_ns q) 1000000),
              idle_ms = py_round 2 (int_float_truediv (idle_ns q) 1000000),
              total_ms = py_round 2 (int_float_truediv (total_ns q) 1000000),
              overlap_pct =
                (if nccl_ns q \<noteq> 0
                 then py_round 1 (int_truediv (100 * overlap_ns q) (nccl_ns q))
                 else 0),
              compute_kernels = length (compute_intervals ks),
              nccl_kernels = length (nccl_intervals ks)\<rparr>"
proof -
  note p = overlap_quantities_partition[OF assms(3,4), folded q_def ks_def]
  have only: "compute_only_ns q = compute_ns q - overlap_ns q"
    "nccl_only_ns q = nccl_ns q - overlap_ns q"
    by (simp_all add: q_def overlap_quantities_def Let_def)
  have idle: "max 0 (idle_ns q) = idle_ns q" using p by simp
  have mc: "compute_ns q = total_covered (merge_intervals (compute_intervals ks))"
    "nccl_ns q = total_covered (merge_intervals (nccl_intervals ks))"
    by (simp_all add: q_def ks_def overlap_quantities_def Let_def)
  have "\<forall>x\<in>set (compute_intervals ks). fst x \<le> snd x"
    using assms(4) by (auto simp: compute_intervals_def ks_def)
  then have cc: "cov (merge_intervals (compute_intervals ks)) = cov (compute_intervals ks)"
    using merge_intervals_separated by blast
  have "\<forall>x\<in>set (nccl_intervals ks). fst x \<le> snd x"
    using assms(4) by (auto simp: nccl_intervals_def ks_def)
  then have cn: "cov (merge_intervals (nccl_intervals ks)) = cov (nccl_intervals ks)"
    using merge_intervals_separated by blast
  have rep: "overlap_analysis prof device trim =
           Report
             \<lparr>compute_only_ms = py_round 2 (int_float_truediv (compute_only_ns q) 1000000),
              nccl_only_ms = py_round 2 (int_float_truediv (nccl_only_ns q) 1000000),
              overlap_ms = py_round 2 (int_float_truediv (overlap_ns q) 1000000),
              idle_ms = py_round 2 (int_float_truediv (idle_ns q) 1000000),
              total_ms = py_round 2 (int_float_truediv (total_ns q) 1000000),
              overlap_pct =
                (if nccl_ns q \<noteq> 0
                 then py_round 1 (int_truediv (100 * overlap_ns q) (nccl_ns q))
                 else 0),
              compute_kernels = length (compute_intervals ks),
              nccl_kernels = length (nccl_intervals ks)\<rparr>"
    using assms(3) idle
    by (simp add: overlap_analysis_def overlap_analysis_of_def Let_def q_def ks_def)
  show ?thesis using p only rep mc cc cn by blast
qed

theorem overlap_partition_witness:
  "kernels scenario_profile 0 None \<noteq> []
   \<and> list_all (\<lambda>k. k_start k \<le> k_end k) (kernels scenario_profile 0 None)
   \<and> overlap_quantities (kernels scenario_profile 0 None) =
       \<lparr>compute_ns = 25, nccl_ns = 10, overlap_ns = 10, compute_only_ns = 15,
        nccl_only_ns = 0, idle_ns = 5, total_ns = 30\<rparr>
   \<and> (15::int) + 0 + 10 + max 0 5 = 30
   \<and> int (card (cov (compute_intervals (kernels scenario_profile 0 None)))) = 25
   \<and> int (card (cov (nccl_intervals (kernels scenario_profile 0 None)))) = 10
   \<and> int (card (cov (compute_intervals (kernels scenario_profile 0 None))
                 \<inter> cov (nccl_intervals (kernels scenario_profile 0 None)))) = 10
   \<and> Max (set (map k_end (kernels scenario_profile 0 None)))
       - Min (set (map k_start (kernels scenario_profile 0 None))) = 30
   \<and> overlap_analysis scenario_profile 0 None =
       Report \<lparr>compute_only_ms = 0, nccl_only_ms = 0, overlap_ms = 0, idle_ms = 0, total_ms = 0,
               overlap_pct = 100, compute_kernels = 3, nccl_kernels = 1\<rparr>"
proof -
  have h1: "kernels scenario_profile 0 None \<noteq> []" by code_simp
  have h2: "list_all (\<lambda>k. k_start k \<le> k_end k) (kernels scenario_profile 0 None)"
    by code_simp
  then have h3: "\<forall>k\<in>set (kernels scenario_profile 0 None). k_start k \<le> k_end k"
    by (simp add: list_all_iff)
  have v: "overlap_quantities (kernels scenario_profile 0 None) =
       \<lparr>compute_ns = 25, nccl_ns = 10, overlap_ns = 10, compute_only_ns = 15,
        nccl_only_ns = 0, idle_ns = 5, total_ns = 30\<rparr>"
    by code_simp
  have r: "overlap_analysis scenario_profile 0 None =
       Report \<lparr>compute_only_ms = 0, nccl_only_ms = 0, overlap_ms = 0, idle_ms = 0, total_ms = 0,
               overlap_pct = 100, compute_kernels = 3, nccl_kernels = 1\<rparr>"
    by code_simp
  note t = overlap_partition[OF h1 h3, unfolded v]
  have c: "int (card (cov (compute_intervals (kernels scenario_profile 0 None)))) = 25"
    using t by simp
  have n: "int (card (cov (nccl_intervals (kernels scenario_profile 0 None)))) = 10"
    using t by simp
  have o: "int (card (cov (compute_intervals (kernels scenario_profile 0 None))
                 \<inter> cov (nccl_intervals (kernels scenario_profile 0 None)))) = 10"
    using t by simp
  have s: "Max (set (map k_end (kernels scenario_profile 0 None)))
       - Min (set (map k_start (kernels scenario_profile 0 None))) = 30"
    using t by simp
  have a: "(15::int) + 0 + 10 + max 0 5 = 30" by simp
  show ?thesis by (intro conjI h1 h2 v a c n o s r)
qed


text \<open>
  Claim C1 as stated fails for the reported quantities, which are milliseconds rounded to
  two decimal places. In \<open>rounding_profile\<close> the four parts are \<open>4000\<close>, \<open>4000\<close>, \<open>0\<close>
  and \<open>0\<close> nanoseconds and add up to the span of \<open>8000\<close> nanoseconds, but every reported
  part is \<open>0.0\<close> and the reported total is \<open>0.01\<close>.
\<close>

theorem reported_milliseconds_do_not_add_up:
  "kernels rounding_profile 0 None \<noteq> []
   \<and> list_all (\<lambda>k. k_start k \<le> k_end k) (kernels rounding_profile 0 None)
   \<and> overlap_quantities (kernels rounding_profile 0 None) =
       \<lparr>compute_ns = 4000, nccl_ns = 4000, overlap_ns = 0, compute_only_ns = 4000,
        nccl_only_ns = 4000, idle_ns = 0, total_ns = 8000\<rparr>
   \<and> overlap_analysis rounding_profile 0 None =
       Report \<lparr>compute_only_ms = 0, nccl_only_ms = 0, overlap_ms = 0, idle_ms = 0,
               total_ms = py_float (1 / 100), overlap_pct = 0,
               compute_kernels = 1, nccl_kernels = 1\<rparr>
   \<and> py_float (1 / 100) = 5764607523034235 / 576460752303423488
   \<and> (0::rat) + 0 + 0 + 0 \<noteq> py_float (1 / 100)"
  by code_simp

section \<open>Classification priority\<close>

text \<open>
  Claim C4. \<open>classify_kernel\<close> returns \<open>compute\<close> when the lower-cased name does not
  contain \<open>nccl\<close>; otherwise it returns the first collective type whose lower-cased key
  the name contains, tested in the order AllGather, ReduceScatter, AllReduce, Broadcast,
  SendRecv, Reduce, and \<open>nccl_other\<close> when none matches. In particular
  \<open>ncclAllReduce_sum\<close> is classified as AllReduce, not as Reduce.
\<close>

theorem classify_kernel_priority:
  "classify_kernel name =
     (if \<not> str_in ''nccl'' (lower name) then ''compute''
      else if str_in ''allgather'' (lower name) then ''nccl_allgather''
      else if str_in ''reducescatter'' (lower name) then ''nccl_reducescatter''
      else if str_in ''allreduce'' (lower name) then ''nccl_allreduce''
      else if str_in ''broadcast'' (lower name) then ''nccl_broadcast''
      else if str_in ''sendrecv'' (lower name) then ''nccl_sendrecv''
      else if str_in ''reduce'' (lower name) then ''nccl_reduce''
      else ''nccl_other'')
   \<and> classify_kernel ''ncclAllReduce_sum'' = ''nccl_allreduce''
   \<and> classify_kernel ''ncclAllReduce_sum'' \<noteq> ''nccl_reduce''"
proof -
  have keys: "lower ''AllGather'' = ''allgather''" "lower ''ReduceScatter'' = ''reducescatter''"
    "lower ''AllReduce'' = ''allreduce''" "lower ''Broadcast'' = ''broadcast''"
    "lower ''SendRecv'' = ''sendrecv''" "lower ''Reduce'' = ''reduce''"
    by code_simp+
  have 1: "classify_kernel name =
     (if \<not> str_in ''nccl'' (lower name) then ''compute''
      else if str_in ''allgather'' (lower name) then ''nccl_allgather''
      else if str_in ''reducescatter'' (lower name) then ''nccl_reducescatter''
      else if str_in ''allreduce'' (lower name) then ''nccl_allreduce''
      else if str_in ''broadcast'' (lower name) then ''nccl_broadcast''
      else if str_in ''sendrecv'' (lower name) then ''nccl_sendrecv''
      else if str_in ''reduce'' (lower name) then ''nccl_reduce''
      else ''nccl_other'')" for name
    by (simp add: classify_kernel_def NCCL_TYPES_def keys)
  have 2: "classify_kernel ''ncclAllReduce_sum'' = ''nccl_allreduce''"
    by code_simp
  show ?thesis using 1 2 by simp
qed

theorem classify_kernel_priority_witness:
  "classify_kernel ''ncclDevKernel_ReduceScatter_Sum_f16'' = ''nccl_reducescatter''
   \<and> classify_kernel ''ampere_sgemm_128x64'' = ''compute''
   \<and> classify_kernel ''ncclKernel_Reduce_ring'' = ''nccl_reduce''
   \<and> classify_kernel ''NCCL_barrier'' = ''nccl_other''"
proof -
  have a: "lower ''ncclDevKernel_ReduceScatter_Sum_f16'' = ''nccldevkernel_reducescatter_sum_f16''"
       "lower ''ampere_sgemm_128x64'' = ''ampere_sgemm_128x64''"
       "lower ''ncclKernel_Reduce_ring'' = ''ncclkernel_reduce_ring''"
       "lower ''NCCL_barrier'' = ''nccl_barrier''"
    by code_simp+
  show ?thesis
    using classify_kernel_priority[of "''ncclDevKernel_ReduceScatter_Sum_f16''"]
      classify_kernel_priority[of "''ampere_sgemm_128x64''"]
      classify_kernel_priority[of "''ncclKernel_Reduce_ring''"]
      classify_kernel_priority[of "''NCCL_barrier''"]
    unfolding a by simp
qed


section \<open>Percentages with a zero denominator\<close>

text \<open>
  Claim C8. A zero denominator of a percentage yields \<open>0\<close>, never an exception.
  \<open>overlap_analysis\<close> and \<open>convergence_report\<close> test their denominator, and give
  \<open>0\<close>; \<open>nccl_breakdown\<close> divides by the summed collective time without a test. On a
  window whose only collective kernel has zero duration, the sum is zero and the division
  raises \<open>ZeroDivisionError\<close>.
\<close>

theorem nccl_breakdown_zero_total_raises:
  "nccl_breakdown zero_duration_profile 0 None = Inl ZeroDivisionError
   \<and> overlap_analysis zero_duration_profile 0 None =
       Report \<lparr>compute_only_ms = 0, nccl_only_ms = 0, overlap_ms = 0, idle_ms = 0,
               total_ms = 0, overlap_pct = 0, compute_kernels = 0, nccl_kernels = 1\<rparr>
   \<and> coverage_pct (convergence_report []) = 0"
  by code_simp


section \<open>Empty results\<close>









section \<open>Iteration markers\<close>

lemma keep_non_overlapping_ge:
  "\<forall>n\<in>set rows. n_start n < n_end n \<Longrightarrow> m \<in> set (keep_non_overlapping last_end rows) \<Longrightarrow>
     last_end \<le> n_start m \<and> m \<in> set rows"
proof (induction rows arbitrary: last_end)
  case Nil
  then show ?case by simp
next
  case (Cons n rows)
  show ?case
  proof (cases "last_end \<le> n_start n")
    case True
    then have "m = n \<or> m \<in> set (keep_non_overlapping (n_end n) rows)"
      using Cons.prems(2) by simp
    then show ?thesis
    proof
      assume "m = n" then show ?thesis using True by simp
    next
      assume "m \<in> set (keep_non_overlapping (n_end n) rows)"
      then have "n_end n \<le> n_start m \<and> m \<in> set rows"
        using Cons.IH[of "n_end n"] Cons.prems(1) by simp
      then show ?thesis using True Cons.prems(1) by force
    qed
  next
    case False
    then have "m \<in> set (keep_non_overlapping last_end rows)" using Cons.prems(2) by simp
    then show ?thesis using Cons.IH[of last_end] Cons.prems(1) by simp
  qed
qed

lemma keep_non_overlapping_chain:
  "\<forall>n\<in>set rows. n_start n < n_end n \<Longrightarrow>
     sorted_wrt (\<lambda>a b. n_end a \<le> n_start b) (keep_non_overlapping last_end rows)"
proof (induction rows arbitrary: last_end)
  case Nil
  then show ?case by simp
next
  case (Cons n rows)
  have wf: "\<forall>n\<in>set rows. n_start n < n_end n" using Cons.prems by simp
  show ?case
  proof (cases "last_end \<le> n_start n")
    case True
    have "\<forall>m\<in>set (keep_non_overlapping (n_end n) rows). n_end n \<le> n_start m"
      using keep_non_overlapping_ge[OF wf] by blast
    then show ?thesis using True Cons.IH[OF wf, of "n_end n"] by simp
  next
    case False
    then show ?thesis using Cons.IH[OF wf, of last_end] by simp
  qed
qed

lemma pri_nvtx_wf: "\<forall>n\<in>set (pri_nvtx like prof trim marker tid). n_start n < n_end n"
  by (auto simp: pri_nvtx_def Let_def)


text \<open>
  Claim C10. Iteration detection keeps a marker scope only when its start is not before the
  end of the marker kept before it, with \<open>0\<close> as the first threshold. So every kept marker
  starts at a non-negative time, and the kept markers are pairwise non-overlapping in start
  order. On a trace whose timestamps are negative the two disjoint marker scopes of the
  primary thread are both dropped and no iteration is reported, although each of them
  launches a kernel; the same trace moved forward by 1000 ns yields two iterations.
\<close>

theorem kept_markers_nonnegative:
  "(\<forall>n\<in>set (marker_iterations like prof trim marker tid).
       0 \<le> n_start n \<and> n \<in> set (pri_nvtx like prof trim marker tid))
   \<and> sorted_wrt (\<lambda>a b. n_end a \<le> n_start b) (marker_iterations like prof trim marker tid)
   \<and> list_all (\<lambda>n. n_end n < 0) (pri_nvtx substring_like negative_profile None ''sample_0'' 1)
   \<and> sorted_wrt (\<lambda>a b. n_end a \<le> n_start b)
        (pri_nvtx substring_like negative_profile None ''sample_0'' 1)
   \<and> length (pri_nvtx substring_like negative_profile None ''sample_0'' 1) = 2
   \<and> find_primary_thread negative_profile 0 1
   \<and> marker_iterations substring_like negative_profile None ''sample_0'' 1 = []
   \<and> detect_iterations_on substring_like negative_profile 0 None ''sample_0'' 1 = []
   \<and> detect_iterations substring_like negative_profile 0 None ''sample_0'' []
   \<and> length (detect_iterations_on substring_like (shift_profile 1000 negative_profile)
                0 None ''sample_0'' 1) = 2"
proof -
  have wf: "\<forall>n\<in>set (pri_nvtx like prof trim marker tid). n_start n < n_end n"
    by (rule pri_nvtx_wf)
  have 1: "\<forall>n\<in>set (marker_iterations like prof trim marker tid).
       0 \<le> n_start n \<and> n \<in> set (pri_nvtx like prof trim marker tid)"
    unfolding marker_iterations_def using keep_non_overlapping_ge[OF wf] by blast
  have 2: "sorted_wrt (\<lambda>a b. n_end a \<le> n_start b) (marker_iterations like prof trim marker tid)"
    unfolding marker_iterations_def by (rule keep_non_overlapping_chain[OF wf])
  have 3: "list_all (\<lambda>n. n_end n < 0) (pri_nvtx substring_like negative_profile None ''sample_0'' 1)"
    by code_simp
  have 4: "sorted_wrt (\<lambda>a b. n_end a \<le> n_start b)
        (pri_nvtx substring_like negative_profile None ''sample_0'' 1)"
    by code_simp
  have 5: "length (pri_nvtx substring_like negative_profile None ''sample_0'' 1) = 2"
    by code_simp
  have 6: "find_primary_thread negative_profile 0 1"
    by code_simp
  have 7: "marker_iterations substring_like negative_profile None ''sample_0'' 1 = []"
    by code_simp
  have 8: "detect_iterations_on substring_like negative_profile 0 None ''sample_0'' 1 = []"
    by code_simp
  have 9: "detect_iterations substring_like negative_profile 0 None ''sample_0'' []"
    by code_simp
  have 10: "length (detect_iterations_on substring_like (shift_profile 1000 negative_profile)
                0 None ''sample_0'' 1) = 2"
    by code_simp
  show ?thesis using 1 2 3 4 5 6 7 8 9 10 by blast
qed

theorem kept_markers_nonnegative_witness:
  "list_all (\<lambda>n. 0 \<le> n_start n)
     (marker_iterations substring_like (shift_profile 1000 negative_profile) None ''sample_0'' 1)
   \<and> length (marker_iterations substring_like (shift_profile 1000 negative_profile)
               None ''sample_0'' 1) = 2"
proof -
  have "length (marker_iterations substring_like (shift_profile 1000 negative_profile)
               None ''sample_0'' 1) = 2"
    by code_simp
  then show ?thesis
    using kept_markers_nonnegative[of substring_like "shift_profile 1000 negative_profile"
        None "''sample_0''" 1]
    by (simp add: list_all_iff)
qed

section \<open>Primary thread\<close>

lemma count_list_map: "count_list (map f xs) t = length (filter (\<lambda>x. f x = t) xs)"
  by (induction xs) auto

lemma join_counts_set:
  "set (join_counts prof device) =
     (\<lambda>t. (t, correlated_pairs prof device t)) ` gpu_threads prof device"
  unfolding join_counts_def gpu_threads_def correlated_pairs_def Let_def split_def count_list_map
  by auto

lemma correlated_pairs_zero:
  "tid \<notin> gpu_threads prof device \<Longrightarrow> correlated_pairs prof device tid = 0"
  by (auto simp: gpu_threads_def correlated_pairs_def filter_empty_conv)

lemma correlated_pairs_pos:
  "tid \<in> gpu_threads prof device \<Longrightarrow> 0 < correlated_pairs prof device tid"
  by (auto simp: gpu_threads_def correlated_pairs_def filter_empty_conv)

lemma no_launches_iff: "launches_on prof device = [] \<longleftrightarrow> gpu_threads prof device = {}"
  by (simp add: gpu_threads_def)

lemma join_counts_empty: "join_counts prof device = [] \<longleftrightarrow> gpu_threads prof device = {}"
  using join_counts_set[of prof device] by (metis image_is_empty set_empty)

lemma find_primary_thread_iff:
  "find_primary_thread prof device tid \<longleftrightarrow>
     (if gpu_threads prof device = {} then tid = 0
      else tid \<in> gpu_threads prof device
           \<and> (\<forall>t\<in>gpu_threads prof device.
                 correlated_pairs prof device t \<le> correlated_pairs prof device tid))"
  unfolding find_primary_thread_def primary_thread_values_def Let_def join_counts_empty
  by (auto simp: list_all_iff join_counts_set image_iff)

text \<open>With distinct keys at most one row matches a key.\<close>

lemma distinct_key_matches:
  "distinct (map f xs) \<Longrightarrow>
     length (filter (\<lambda>x. c = f x) xs) = (if list_ex (\<lambda>x. c = f x) xs then 1 else 0)"
proof (induction xs)
  case Nil
  then show ?case by simp
next
  case (Cons x xs)
  show ?case
  proof (cases "c = f x")
    case True
    then have "\<forall>y\<in>set xs. c \<noteq> f y" using Cons.prems by auto
    then have "filter (\<lambda>x. c = f x) xs = []" by (simp add: filter_empty_conv)
    then show ?thesis using True by simp
  next
    case False
    then show ?thesis using Cons by simp
  qed
qed

lemma device_matches:
  assumes "distinct (map k_correlationId (filter (\<lambda>k. k_deviceId k = device) ks))"
  shows "length (filter (\<lambda>k. c = k_correlationId k \<and> k_deviceId k = device) ks)
         = (if list_ex (\<lambda>k. c = k_correlationId k \<and> k_deviceId k = device) ks then 1 else 0)"
proof -
  have "filter (\<lambda>k. c = k_correlationId k \<and> k_deviceId k = device) ks
        = filter (\<lambda>k. c = k_correlationId k) (filter (\<lambda>k. k_deviceId k = device) ks)"
    by (simp add: conj_commute)
  moreover have "list_ex (\<lambda>k. c = k_correlationId k \<and> k_deviceId k = device) ks
        \<longleftrightarrow> list_ex (\<lambda>k. c = k_correlationId k) (filter (\<lambda>k. k_deviceId k = device) ks)"
    by (auto simp: list_ex_iff)
  ultimately show ?thesis using distinct_key_matches[OF assms, of c] by simp
qed

lemma pairs_of_thread:
  "length (filter (\<lambda>(r, k). r_globalTid r = tid)
             (concat (map (\<lambda>r. map (\<lambda>k. (r, k)) (filter (P r) ks)) rs)))
   = sum_list (map (\<lambda>r. if r_globalTid r = tid then length (filter (P r) ks) else 0) rs)"
  by (induction rs) (simp_all add: filter_map comp_def)

lemma launches_of_thread:
  "length (filter (\<lambda>r. r_globalTid r = tid \<and> Q r) rs)
   = sum_list (map (\<lambda>r. if r_globalTid r = tid then (if Q r then 1 else 0) else 0) rs)"
  by (induction rs) simp_all

lemma correlated_pairs_launches:
  assumes "distinct (map k_correlationId (filter (\<lambda>k. k_deviceId k = device) (KERNEL prof)))"
  shows "correlated_pairs prof device tid = correlated_launches prof device tid"
  unfolding correlated_pairs_def correlated_launches_def launches_on_def
    pairs_of_thread launches_of_thread device_matches[OF assms]
  by simp

lemma primary_thread_values_none:
  "launches_on prof device = [] \<Longrightarrow> primary_thread_values prof device = [0]"
  by (simp add: primary_thread_values_def Let_def join_counts_empty no_launches_iff)


text \<open>
  In \<open>graph_launch_profile\<close> thread 9 makes two correlated launch calls and thread 5 one,
  but the join has three rows for thread 5 and two for thread 9, and thread 5 is returned.
\<close>

lemma primary_thread_counts_join_rows:
  "primary_thread_values graph_launch_profile 0 = [5]
   \<and> correlated_pairs graph_launch_profile 0 5 = 3
   \<and> correlated_launches graph_launch_profile 0 5 = 1
   \<and> correlated_pairs graph_launch_profile 0 9 = 2
   \<and> correlated_launches graph_launch_profile 0 9 = 2"
  by code_simp


text \<open>
  Claim C2, as the code has it. \<open>_find_primary_thread\<close> always returns a value. When the
  device has no correlated launch it returns \<open>0\<close>; \<open>build_nvtx_tree\<close> then returns the
  empty tree, and \<open>detect_iterations\<close> goes on with \<open>0\<close> as the thread id. Otherwise it
  returns a thread with the largest number of rows in the join of launch calls and kernels
  of the device: a launch call counts once for every kernel that carries its correlation
  id. When the kernels of the device have distinct correlation ids this is the number of
  correlated launch calls of the thread. Which of several threads with the largest number
  it returns is not fixed.
\<close>

theorem primary_thread_has_most_launches:
  "(\<exists>tid. find_primary_thread prof device tid)
   \<and> (\<forall>tid. find_primary_thread prof device tid \<longrightarrow>
         (if launches_on prof device = [] then tid = 0
          else 0 < correlated_pairs prof device tid
               \<and> (\<forall>t. correlated_pairs prof device t \<le> correlated_pairs prof device tid)))
   \<and> (distinct (map k_correlationId (filter (\<lambda>k. k_deviceId k = device) (KERNEL prof))) \<longrightarrow>
         (\<forall>t. correlated_pairs prof device t = correlated_launches prof device t))
   \<and> (launches_on prof device = [] \<longrightarrow>
         (\<forall>trim pad res. build_nvtx_tree prof device trim pad res \<longleftrightarrow> res = [])
         \<and> (\<forall>like trim marker res.
               detect_iterations like prof device trim marker res
               \<longleftrightarrow> res = detect_iterations_on like prof device trim marker 0))"
proof (intro conjI allI impI)
  show "\<exists>tid. find_primary_thread prof device tid"
  proof (cases "gpu_threads prof device = {}")
    case True
    then show ?thesis using find_primary_thread_iff[of prof device 0] by auto
  next
    case False
    have fin: "finite (correlated_pairs prof device ` gpu_threads prof device)"
      by (simp add: gpu_threads_def)
    have ne: "correlated_pairs prof device ` gpu_threads prof device \<noteq> {}" using False by simp
    obtain tid where t: "tid \<in> gpu_threads prof device"
      "correlated_pairs prof device tid = Max (correlated_pairs prof device ` gpu_threads prof device)"
      using Max_in[OF fin ne] by auto
    have "\<forall>t\<in>gpu_threads prof device.
            correlated_pairs prof device t \<le> correlated_pairs prof device tid"
      using t(2) fin by simp
    then show ?thesis using find_primary_thread_iff[of prof device tid] t(1) False by auto
  qed
next
  fix tid assume f: "find_primary_thread prof device tid"
  show "if launches_on prof device = [] then tid = 0
        else 0 < correlated_pairs prof device tid
             \<and> (\<forall>t. correlated_pairs prof device t \<le> correlated_pairs prof device tid)"
  proof (cases "gpu_threads prof device = {}")
    case True
    then show ?thesis using f find_primary_thread_iff[of prof device tid] no_launches_iff by simp
  next
    case False
    then have m: "tid \<in> gpu_threads prof device"
      "\<forall>t\<in>gpu_threads prof device.
         correlated_pairs prof device t \<le> correlated_pairs prof device tid"
      using f find_primary_thread_iff[of prof device tid] by auto
    have "correlated_pairs prof device t \<le> correlated_pairs prof device tid" for t
      using m(2) correlated_pairs_zero[of t prof device]
      by (cases "t \<in> gpu_threads prof device") auto
    then show ?thesis using False no_launches_iff correlated_pairs_pos[OF m(1)] by simp
  qed
next
  fix t
  assume "distinct (map k_correlationId (filter (\<lambda>k. k_deviceId k = device) (KERNEL prof)))"
  then show "correlated_pairs prof device t = correlated_launches prof device t"
    by (rule correlated_pairs_launches)
next
  fix trim pad res
  assume "launches_on prof device = []"
  then show "build_nvtx_tree prof device trim pad res \<longleftrightarrow> res = []"
    by (simp add: build_nvtx_tree_def primary_thread_values_none build_nvtx_tree_on_def)
next
  fix like trim marker res
  assume "launches_on prof device = []"
  then show "detect_iterations like prof device trim marker res
             \<longleftrightarrow> res = detect_iterations_on like prof device trim marker 0"
    by (simp add: detect_iterations_def primary_thread_values_none)
qed

theorem primary_thread_has_most_launches_witness:
  "find_primary_thread negative_profile 0 1
   \<and> launches_on negative_profile 0 \<noteq> []
   \<and> distinct (map k_correlationId (filter (\<lambda>k. k_deviceId k = 0) (KERNEL negative_profile)))
   \<and> correlated_pairs negative_profile 0 1 = 2
   \<and> correlated_launches negative_profile 0 1 = 2
   \<and> launches_on scenario_profile 0 = []
   \<and> find_primary_thread scenario_profile 0 0
   \<and> build_nvtx_tree scenario_profile 0 (0, 30) 0 []
   \<and> detect_iterations str_in scenario_profile 0 None ''sample_0'' []"
proof -
  have a: "find_primary_thread negative_profile 0 1" by code_simp
  have b: "correlated_pairs negative_profile 0 1 = 2" by code_simp
  have c: "launches_on scenario_profile 0 = []" by code_simp
  have d: "launches_on negative_profile 0 \<noteq> []" by code_simp
  have e: "distinct (map k_correlationId (filter (\<lambda>k. k_deviceId k = 0) (KERNEL negative_profile)))"
    by code_simp
  have f: "detect_iterations_on str_in scenario_profile 0 None ''sample_0'' 0 = []"
    by code_simp
  note t1 = primary_thread_has_most_launches[of negative_profile 0]
  note t2 = primary_thread_has_most_launches[of scenario_profile 0]
  have g: "correlated_launches negative_profile 0 1 = 2" using t1 e b by metis
  have h: "find_primary_thread scenario_profile 0 0" using t2 c by metis
  have i: "build_nvtx_tree scenario_profile 0 (0, 30) 0 []" using t2 c by blast
  have j: "detect_iterations str_in scenario_profile 0 None ''sample_0'' []"
    using t2 c f by metis
  show ?thesis using a b c d e g h i j by simp
qed


text \<open>
  Claim C2 as stated fails on a tie: threads 3 and 7 both have one correlated launch on
  device 0, and the larger id 7 is a possible result as well as 3.
\<close>

theorem primary_thread_tie_not_smallest:
  "find_primary_thread tie_profile 0 7
   \<and> find_primary_thread tie_profile 0 3
   \<and> correlated_pairs tie_profile 0 3 = 1
   \<and> correlated_pairs tie_profile 0 7 = 1
   \<and> correlated_launches tie_profile 0 3 = 1
   \<and> correlated_launches tie_profile 0 7 = 1"
  by code_simp
section \<open>Coverage arithmetic\<close>

text \<open>
  The convergence walk visits the scope nodes in the order of \<open>all_scopes\<close> and updates
  its counters by \<open>count_scope\<close> at each.
\<close>

lemma fold_convergence_node:
  assumes "\<And>c st. c \<in> set cs \<Longrightarrow> convergence_node c st = fold count_scope (map fst (scopes_at c d)) st"
  shows "fold convergence_node cs st = fold count_scope (map fst (concat (map (\<lambda>c. scopes_at c d) cs))) st"
  using assms by (induction cs arbitrary: st) simp_all

lemma convergence_node_scopes:
  "convergence_node node st = fold count_scope (map fst (scopes_at node d)) st"
proof (induction node st arbitrary: d rule: convergence_node.induct)
  case (1 node st)
  show ?case
  proof (cases "ntype node = KernelT")
    case True
    then show ?thesis by (subst convergence_node.simps, subst scopes_at.simps) simp
  next
    case False
    then have nv: "ntype node = NvtxT" by (cases "ntype node") auto
    have ih: "\<And>c s. c \<in> set (nvtx_children node) \<Longrightarrow>
        convergence_node c s = fold count_scope (map fst (scopes_at c (d + 1))) s"
      using "1.IH"[OF False refl refl refl] by blast
    have rec: "\<And>s. fold convergence_node (nvtx_children node) s =
        fold count_scope (map fst (concat (map (\<lambda>c. scopes_at c (d + 1)) (nvtx_children node)))) s"
      by (rule fold_convergence_node) (rule ih)
    have upd: "(let st1 = st\<lparr>s_total_nvtx := s_total_nvtx st + 1\<rparr>;
                    n = length (kern_children node)
                in (if nvtx_children node = []
                    then if n = 1
                         then st1\<lparr>s_converged := s_converged st1 + 1,
                                  s_mapped_kernels := s_mapped_kernels st1 + 1\<rparr>
                         else if 1 < n
                              then st1\<lparr>s_unconverged := s_unconverged st1 + 1,
                                       s_unmapped_kernels := s_unmapped_kernels st1 + n\<rparr>
                              else st1
                    else st1)) = count_scope node st"
      by (simp add: count_scope_def converged_scope_def unconverged_scope_def Let_def)
    show ?thesis
      by (subst convergence_node.simps, subst scopes_at.simps)
         (simp add: False nv rec Let_def count_scope_def converged_scope_def unconverged_scope_def)
  qed
qed

lemma convergence_walk_scopes:
  "convergence_walk roots st = fold count_scope (map fst (all_scopes roots)) st"
  unfolding convergence_walk_def all_scopes_def
  by (rule fold_convergence_node) (rule convergence_node_scopes)

lemma fold_count_scope:
  "s_total_nvtx (fold count_scope ns st) = s_total_nvtx st + length ns
   \<and> s_converged (fold count_scope ns st) = s_converged st + length (filter converged_scope ns)
   \<and> s_unconverged (fold count_scope ns st) = s_unconverged st + length (filter unconverged_scope ns)
   \<and> s_mapped_kernels (fold count_scope ns st)
       = s_mapped_kernels st + length (filter converged_scope ns)
   \<and> s_unmapped_kernels (fold count_scope ns st)
       = s_unmapped_kernels st
         + sum_list (map (\<lambda>n. length (kern_children n)) (filter unconverged_scope ns))"
  by (induction ns arbitrary: st) (simp_all add: count_scope_def)

lemma int_truediv_percent:
  assumes "m \<le> t" "0 < t"
  shows "0 \<le> int_truediv (100 * int m) (int t)"
    and "int_truediv (100 * int m) (int t) \<le> 100"
    and "\<bar>int_truediv (100 * int m) (int t) - 100 * of_nat m / of_nat t\<bar> \<le> 1 / 2 ^ 47"
proof -
  define q :: rat where "q = 100 * of_nat m / of_nat t"
  have tpos: "(0::rat) < of_nat t" using assms(2) by simp
  have "(of_nat m :: rat) \<le> of_nat t" using assms(1) by simp
  then have "100 * (of_nat m :: rat) \<le> 100 * of_nat t" by simp
  then have q100: "q \<le> 100" unfolding q_def using tpos by (simp add: pos_divide_le_eq)
  have q0: "0 \<le> q" unfolding q_def by simp
  have eq: "int_truediv (100 * int m) (int t) = py_float q"
    by (simp add: int_truediv_def q_def)
  show "0 \<le> int_truediv (100 * int m) (int t)" unfolding eq by (rule py_float_nonneg[OF q0])
  have "q \<le> of_int 100" using q100 by simp
  then have "py_float q \<le> of_int 100" by (rule py_float_le_int[OF q0]) simp
  then show "int_truediv (100 * int m) (int t) \<le> 100" unfolding eq by simp
  have "\<bar>q\<bar> < 2 powi 7" using q0 q100 by simp
  then have "\<bar>py_float q - q\<bar> \<le> 2 powi (7 - 54)" by (rule py_float_err) simp
  then show "\<bar>int_truediv (100 * int m) (int t) - 100 * of_nat m / of_nat t\<bar> \<le> 1 / 2 ^ 47"
    unfolding eq q_def by (simp add: power_int_minus_divide)
qed

lemma py_round_1_percent:
  assumes "0 \<le> f" "f \<le> 100"
  shows "\<exists>k. 0 \<le> k \<and> k \<le> 1000 \<and> py_round 1 f = py_float (of_int k / 10)
             \<and> \<bar>of_int k / 10 - f\<bar> \<le> 1 / 20"
proof -
  define k where "k = round_half_even (f * 10)"
  have "of_int 0 \<le> f * 10" using assms(1) by simp
  then have k0: "0 \<le> k" unfolding k_def by (rule round_half_even_ge)
  have "f * 10 \<le> of_int 1000" using assms(2) by simp
  then have k1: "k \<le> 1000" unfolding k_def by (rule round_half_even_le)
  have "\<bar>of_int k - f * 10\<bar> \<le> 1 / 2" unfolding k_def by (rule round_half_even_err)
  then have "\<bar>of_int k - f * 10\<bar> / 10 \<le> 1 / 2 / 10" by (simp only: divide_right_mono zero_le_numeral)
  moreover have "of_int k / 10 - f = (of_int k - f * 10) / 10" by (simp add: diff_divide_distrib)
  then have "\<bar>of_int k / 10 - f\<bar> = \<bar>of_int k - f * 10\<bar> / 10" by (simp only: abs_divide abs_numeral)
  ultimately have "\<bar>of_int k / 10 - f\<bar> \<le> 1 / 20" by simp
  moreover have "py_round 1 f = py_float (of_int k / 10)" by (simp add: py_round_def k_def)
  ultimately show ?thesis using k0 k1 by blast
qed

lemma leaf_scope_at:
  "ntype n = NvtxT \<Longrightarrow> nvtx_children n = [] \<Longrightarrow> scopes_at n d = [(n, d)]"
  by (subst scopes_at.simps) simp

lemma skewed_scopes: "map fst (all_scopes skewed_tree) = skewed_tree"
  unfolding all_scopes_def skewed_tree_def
  by (simp add: leaf_scope_at scope_def kleaf_def nvtx_children_def)

lemma skewed_converged: "filter converged_scope skewed_tree = [hd skewed_tree]"
  unfolding skewed_tree_def
  by (simp add: converged_scope_def scope_def kleaf_def nvtx_children_def kern_children_def)

lemma skewed_unconverged: "filter unconverged_scope skewed_tree = [skewed_tree ! 1]"
  unfolding skewed_tree_def
  by (simp add: unconverged_scope_def converged_scope_def scope_def kleaf_def nvtx_children_def kern_children_def)

lemma skewed_kernels: "length (kern_children (skewed_tree ! 1)) = 1999"
  unfolding skewed_tree_def
  by (simp add: scope_def kleaf_def kern_children_def)

lemma skewed_percent: "py_round 1 (int_truediv (100 * 1) 2000) = 3602879701896397 / 36028797018963968"
  by code_simp


text \<open>
  Claim C6. In every convergence report the mapped and unmapped kernels add up to the total
  kernels: the mapped kernels are one per converged scope, the unmapped kernels the kernel
  children of the unconverged scopes. The coverage percentage is
  \<open>round(100 * mapped / (mapped + unmapped), 1)\<close>, or \<open>0\<close> when there are no such
  kernels: the quotient of the integers as a float, rounded to one decimal place. It lies
  between \<open>0\<close> and \<open>100\<close>, it is the float nearest to \<open>k / 10\<close> for an integer
  \<open>k\<close> from \<open>0\<close> to \<open>1000\<close>, and \<open>k / 10\<close> is within \<open>0.05 + 2 ^ -47\<close> of the
  exact percentage.
\<close>

theorem coverage_arithmetic:
  fixes roots :: "node list"
  defines "r \<equiv> convergence_report roots"
  defines "scopes \<equiv> map fst (all_scopes roots)"
  shows "mapped_kernels r + unmapped_kernels r = total_kernels r
   \<and> mapped_kernels r = length (filter converged_scope scopes)
   \<and> unmapped_kernels r
       = sum_list (map (\<lambda>n. length (kern_children n)) (filter unconverged_scope scopes))
   \<and> coverage_pct r =
       (if mapped_kernels r + unmapped_kernels r = 0 then 0
        else py_round 1 (int_truediv (100 * int (mapped_kernels r))
                           (int (mapped_kernels r + unmapped_kernels r))))
   \<and> 0 \<le> coverage_pct r \<and> coverage_pct r \<le> 100
   \<and> (\<exists>k. 0 \<le> k \<and> k \<le> 1000 \<and> coverage_pct r = py_float (of_int k / 10)
          \<and> (total_kernels r \<noteq> 0 \<longrightarrow>
                \<bar>of_int k / 10 - 100 * of_nat (mapped_kernels r) / of_nat (total_kernels r)\<bar>
                  \<le> (1 / 20 + 1 / 2 ^ 47 :: rat)))"
proof -
  define st where "st = convergence_walk roots
     \<lparr>s_total_nvtx = 0, s_total_kernels = 0, s_converged = 0, s_unconverged = 0,
      s_mapped_kernels = 0, s_unmapped_kernels = 0\<rparr>"
  define m where "m = s_mapped_kernels st"
  define u where "u = s_unmapped_kernels st"
  define f where "f = int_truediv (100 * int m) (int (m + u))"
  have rr: "mapped_kernels r = m" "unmapped_kernels r = u" "total_kernels r = m + u"
    "coverage_pct r = (if m + u \<noteq> 0 then py_round 1 f else 0)"
    by (simp_all add: r_def convergence_report_def Let_def st_def m_def u_def f_def)
  have st: "st = fold count_scope scopes
     \<lparr>s_total_nvtx = 0, s_total_kernels = 0, s_converged = 0, s_unconverged = 0,
      s_mapped_kernels = 0, s_unmapped_kernels = 0\<rparr>"
    by (simp add: st_def scopes_def convergence_walk_scopes)
  have mm: "m = length (filter converged_scope scopes)"
    unfolding m_def st using fold_count_scope[of scopes] by simp
  have uu: "u = sum_list (map (\<lambda>n. length (kern_children n)) (filter unconverged_scope scopes))"
    unfolding u_def st using fold_count_scope[of scopes] by simp
  have grid: "\<exists>k. 0 \<le> k \<and> k \<le> 1000 \<and> (if m + u \<noteq> 0 then py_round 1 f else 0) = py_float (of_int k / 10)
          \<and> (m + u \<noteq> 0 \<longrightarrow> \<bar>of_int k / 10 - 100 * of_nat m / of_nat (m + u)\<bar> \<le> (1 / 20 + 1 / 2 ^ 47 :: rat))"
  proof (cases "m + u = 0")
    case True
    have "py_float (of_int 0 / 10) = 0" by (simp add: py_float_def)
    then show ?thesis using True by (intro exI[of _ 0]) simp
  next
    case False
    then have pos: "0 < m + u" by simp
    have le: "m \<le> m + u" by simp
    note b = int_truediv_percent[OF le pos, folded f_def]
    obtain k where k: "0 \<le> k" "k \<le> 1000" "py_round 1 f = py_float (of_int k / 10)"
      "\<bar>of_int k / 10 - f\<bar> \<le> 1 / 20"
      using py_round_1_percent[OF b(1) b(2)] by blast
    have "\<bar>of_int k / 10 - 100 * of_nat m / of_nat (m + u)\<bar> \<le> (1 / 20 + 1 / 2 ^ 47 :: rat)"
      using k(4) b(3) by linarith
    then show ?thesis using k False by auto
  qed
  have rng: "0 \<le> (if m + u \<noteq> 0 then py_round 1 f else 0) \<and> (if m + u \<noteq> 0 then py_round 1 f else 0) \<le> 100"
  proof (cases "m + u = 0")
    case True
    then show ?thesis by simp
  next
    case False
    then have pos: "0 < m + u" by simp
    have le: "m \<le> m + u" by simp
    note b = int_truediv_percent[OF le pos, folded f_def]
    have "f \<le> of_int 100" using b(2) by simp
    then have "0 \<le> py_round 1 f \<and> py_round 1 f \<le> of_int 100"
      by (rule py_round_range[OF b(1)]) simp
    then show ?thesis using False by simp
  qed
  have pct: "(if m + u \<noteq> 0 then py_round 1 f else 0) =
      (if m + u = 0 then 0 else py_round 1 (int_truediv (100 * int m) (int (m + u))))"
    by (simp add: f_def)
  show ?thesis unfolding rr
    apply (intro conjI)
          apply (rule refl)
         apply (rule mm)
        apply (rule uu)
       apply (rule pct)
      apply (rule conjunct1[OF rng])
     apply (rule conjunct2[OF rng])
    apply (rule grid)
    done
qed

theorem coverage_arithmetic_witness:
  "convergence_report two_leaf_tree =
     \<lparr>total_nvtx = 2, total_kernels = 4, converged_nvtx = 1, unconverged_nvtx = 1,
      coverage_pct = 25, mapped_kernels = 1, unmapped_kernels = 3\<rparr>
   \<and> mapped_kernels (convergence_report skewed_tree) = 1
   \<and> unmapped_kernels (convergence_report skewed_tree) = 1999
   \<and> total_kernels (convergence_report skewed_tree) = 2000
   \<and> total_kernels (convergence_report skewed_tree) \<noteq> 0
   \<and> coverage_pct (convergence_report skewed_tree) = 3602879701896397 / 36028797018963968
   \<and> py_float (1 / 10) = 3602879701896397 / 36028797018963968
   \<and> (\<exists>k. 0 \<le> k \<and> k \<le> 1000
          \<and> coverage_pct (convergence_report skewed_tree) = py_float (of_int k / 10)
          \<and> \<bar>of_int k / 10 - 100 * 1 / 2000\<bar> \<le> (1 / 20 + 1 / 2 ^ 47 :: rat))"
proof -
  have a: "convergence_report two_leaf_tree =
     \<lparr>total_nvtx = 2, total_kernels = 4, converged_nvtx = 1, unconverged_nvtx = 1,
      coverage_pct = 25, mapped_kernels = 1, unmapped_kernels = 3\<rparr>"
    by code_simp
  have f: "py_float (1 / 10) = 3602879701896397 / 36028797018963968" by code_simp
  note t = coverage_arithmetic[of skewed_tree, unfolded skewed_scopes skewed_converged skewed_unconverged]
  have m: "mapped_kernels (convergence_report skewed_tree) = 1" using t by simp
  have u: "unmapped_kernels (convergence_report skewed_tree) = 1999"
    using t skewed_kernels by simp
  have n: "total_kernels (convergence_report skewed_tree) = 2000" using t m u by simp
  have p: "coverage_pct (convergence_report skewed_tree) = 3602879701896397 / 36028797018963968"
    using t m u skewed_percent by simp
  from t obtain k where k: "0 \<le> k" "k \<le> 1000"
      "coverage_pct (convergence_report skewed_tree) = py_float (of_int k / 10)"
      "total_kernels (convergence_report skewed_tree) \<noteq> 0 \<longrightarrow>
         \<bar>of_int k / 10 - 100 * of_nat (mapped_kernels (convergence_report skewed_tree))
              / of_nat (total_kernels (convergence_report skewed_tree))\<bar>
         \<le> (1 / 20 + 1 / 2 ^ 47 :: rat)"
    by blast
  have "\<bar>of_int k / 10 - 100 * 1 / 2000\<bar> \<le> (1 / 20 + 1 / 2 ^ 47 :: rat)"
    using k(4) m n by simp
  then have ex: "\<exists>k. 0 \<le> k \<and> k \<le> 1000
          \<and> coverage_pct (convergence_report skewed_tree) = py_float (of_int k / 10)
          \<and> \<bar>of_int k / 10 - 100 * 1 / 2000\<bar> \<le> (1 / 20 + 1 / 2 ^ 47 :: rat)"
    using k(1,2,3) by blast
  have nz: "total_kernels (convergence_report skewed_tree) \<noteq> 0" using n by simp
  show ?thesis by (intro conjI a f m u n nz p ex)
qed

section \<open>Refinement targets\<close>

lemma concat_map_concat:
  "concat (map f (concat xss)) = concat (map (\<lambda>xs. concat (map f xs)) xss)"
  by (induction xss) auto

lemma walk_node_scopes:
  "walk_node node mk depth = concat (map (targets_of mk) (scopes_at node depth))"
proof (induction node mk depth rule: walk_node.induct)
  case (1 node mk depth)
  show ?case
  proof (cases "ntype node = NvtxT")
    case False
    then show ?thesis by (subst walk_node.simps, subst scopes_at.simps) simp
  next
    case True
    have ih: "\<And>c. c \<in> set (nvtx_children node) \<Longrightarrow>
        walk_node c mk (depth + 1) = concat (map (targets_of mk) (scopes_at c (depth + 1)))"
      using "1.IH" True by simp
    have "concat (map (\<lambda>c. walk_node c mk (depth + 1)) (nvtx_children node)) =
          concat (map (\<lambda>c. concat (map (targets_of mk) (scopes_at c (depth + 1))))
                    (nvtx_children node))"
      using ih by (simp cong: map_cong)
    also have "\<dots> = concat (map (targets_of mk)
          (concat (map (\<lambda>c. scopes_at c (depth + 1)) (nvtx_children node))))"
      by (simp add: concat_map_concat comp_def)
    finally have rec: "concat (map (\<lambda>c. walk_node c mk (depth + 1)) (nvtx_children node)) =
        concat (map (targets_of mk)
          (concat (map (\<lambda>c. scopes_at c (depth + 1)) (nvtx_children node))))" .
    show ?thesis
      using rec
      by (subst walk_node.simps, subst scopes_at.simps)
         (simp add: True targets_of_def)
  qed
qed

lemma walk_scopes: "walk roots mk 0 = concat (map (targets_of mk) (all_scopes roots))"
  by (simp add: walk_def all_scopes_def walk_node_scopes concat_map_concat comp_def)


text \<open>
  Claim C5, as the code has it. The refinement-target list holds exactly one target for
  every scope node with more than \<open>max_kernels\<close> (by default 1) direct kernel children: a
  plain target when the node has no scope children, a target flagged "mixed" when it has
  some. The list is in descending order of kernel count, and targets of equal count keep
  the order of the walk.
\<close>

theorem refinement_targets:
  "(\<forall>nd\<in>set (all_scopes roots).
       max_kernels < int (length (kern_children (fst nd))) \<longrightarrow>
         target_of (fst nd) (snd nd)
           (if nvtx_children (fst nd) = [] then None else Some mixed_note)
         \<in> set (find_refinement_targets roots max_kernels))
   \<and> (\<forall>t\<in>set (find_refinement_targets roots max_kernels).
        \<exists>nd\<in>set (all_scopes roots).
          max_kernels < int (length (kern_children (fst nd)))
          \<and> t = target_of (fst nd) (snd nd)
                  (if nvtx_children (fst nd) = [] then None else Some mixed_note))
   \<and> sorted_wrt (\<lambda>a b. t_kernel_count b \<le> t_kernel_count a)
        (find_refinement_targets roots max_kernels)
   \<and> (\<forall>k. filter (\<lambda>t. t_kernel_count t = k) (find_refinement_targets roots max_kernels)
           = filter (\<lambda>t. t_kernel_count t = k) (walk roots max_kernels 0))"
proof -
  have s: "set (find_refinement_targets roots max_kernels) =
      (\<Union>nd\<in>set (all_scopes roots). set (targets_of max_kernels nd))"
    by (simp add: find_refinement_targets_def walk_scopes)
  have 1: "\<forall>nd\<in>set (all_scopes roots).
       max_kernels < int (length (kern_children (fst nd))) \<longrightarrow>
         target_of (fst nd) (snd nd)
           (if nvtx_children (fst nd) = [] then None else Some mixed_note)
         \<in> set (find_refinement_targets roots max_kernels)"
    unfolding s by (auto simp: targets_of_def)
  have 2: "\<forall>t\<in>set (find_refinement_targets roots max_kernels).
        \<exists>nd\<in>set (all_scopes roots).
          max_kernels < int (length (kern_children (fst nd)))
          \<and> t = target_of (fst nd) (snd nd)
                  (if nvtx_children (fst nd) = [] then None else Some mixed_note)"
    unfolding s by (auto simp: targets_of_def split: if_splits)
  have "sorted (map (\<lambda>t. - int (t_kernel_count t)) (find_refinement_targets roots max_kernels))"
    unfolding find_refinement_targets_def by (rule sorted_sort_key)
  then have 3: "sorted_wrt (\<lambda>a b. t_kernel_count b \<le> t_kernel_count a)
      (find_refinement_targets roots max_kernels)"
    by (simp add: sorted_map)
  have 4: "filter (\<lambda>t. t_kernel_count t = k) (find_refinement_targets roots max_kernels)
           = filter (\<lambda>t. t_kernel_count t = k) (walk roots max_kernels 0)" for k
  proof -
    have "filter (\<lambda>t. - int (t_kernel_count t) = - int k) (find_refinement_targets roots max_kernels)
           = filter (\<lambda>t. - int (t_kernel_count t) = - int k) (walk roots max_kernels 0)"
      unfolding find_refinement_targets_def by (rule sort_key_stable)
    then show ?thesis by simp
  qed
  show ?thesis using 1 2 3 4 by blast
qed

theorem refinement_targets_witness:
  "all_scopes two_leaf_tree = [(hd two_leaf_tree, 0), (two_leaf_tree ! 1, 0)]
   \<and> find_refinement_targets two_leaf_tree 1 = [target_of (hd two_leaf_tree) 0 None]
   \<and> target_of (hd two_leaf_tree) 0 None \<in> set (find_refinement_targets two_leaf_tree 1)
   \<and> find_refinement_targets (build_nvtx_tree_on mixed_profile 0 (0, 1000) 0 1) 0 =
       [\<lparr>t_name = ''layer'', t_depth = 0, t_duration_ms = 0, t_kernel_count = 1,
         t_kernels = [''gemm''], t_note = Some mixed_note\<rparr>,
        \<lparr>t_name = ''attention'', t_depth = 1, t_duration_ms = 0, t_kernel_count = 1,
         t_kernels = [''softmax''], t_note = None\<rparr>]"
proof -
  have a: "all_scopes two_leaf_tree = [(hd two_leaf_tree, 0), (two_leaf_tree ! 1, 0)]"
    by code_simp
  have b: "find_refinement_targets two_leaf_tree 1 = [target_of (hd two_leaf_tree) 0 None]"
    by code_simp
  have c: "(1::int) < int (length (kern_children (hd two_leaf_tree)))" by code_simp
  have d: "nvtx_children (hd two_leaf_tree) = []" by code_simp
  have e: "find_refinement_targets (build_nvtx_tree_on mixed_profile 0 (0, 1000) 0 1) 0 =
       [\<lparr>t_name = ''layer'', t_depth = 0, t_duration_ms = 0, t_kernel_count = 1,
         t_kernels = [''gemm''], t_note = Some mixed_note\<rparr>,
        \<lparr>t_name = ''attention'', t_depth = 1, t_duration_ms = 0, t_kernel_count = 1,
         t_kernels = [''softmax''], t_note = None\<rparr>]"
    by code_simp
  have "target_of (hd two_leaf_tree) 0 None \<in> set (find_refinement_targets two_leaf_tree 1)"
    using refinement_targets[of two_leaf_tree 1] a c d by force
  then show ?thesis using a b e by simp
qed


text \<open>
  Claim C5 as stated fails for a scope with scope children and a single uncovered kernel
  child: in the tree built from \<open>mixed_profile\<close> the scope \<open>layer\<close> has the scope child
  \<open>attention\<close> and the uncovered kernel \<open>gemm\<close>, and is no refinement target.
\<close>

theorem mixed_scope_with_one_kernel_is_no_target:
  "build_nvtx_tree_on mixed_profile 0 (0, 1000) 0 1 =
     [Node ''layer'' [] 200 230 None NvtxT None
        [Node ''gemm'' ''gemm'' 200 210 (Some 0) KernelT None [],
         Node ''attention'' [] 220 230 None NvtxT None
           [Node ''softmax'' ''softmax'' 220 230 (Some 0) KernelT None []]]]
   \<and> length (nvtx_children (hd (build_nvtx_tree_on mixed_profile 0 (0, 1000) 0 1))) = 1
   \<and> length (kern_children (hd (build_nvtx_tree_on mixed_profile 0 (0, 1000) 0 1))) = 1
   \<and> find_refinement_targets (build_nvtx_tree_on mixed_profile 0 (0, 1000) 0 1) 1 = []"
  by code_simp


section \<open>Depth monotonicity\<close>

lemma project_loop_depths:
  "project_loop kmap rt_idx trim stacks nvtx =
     List.map_filter (\<lambda>(n, d). emit kmap rt_idx trim n d)
       (zip (filter has_text nvtx) (scope_depths stacks nvtx))
   \<and> length (scope_depths stacks nvtx) = length (filter has_text nvtx)"
proof (induction nvtx arbitrary: stacks)
  case Nil
  then show ?case by (simp add: List.map_filter_simps)
next
  case (Cons n rest)
  show ?case
  proof (cases "has_text n")
    case False
    then show ?thesis using Cons.IH[of stacks] by simp
  next
    case True
    obtain d st' where c: "compute_depth stacks (n_globalTid n) (n_start n) (n_end n) = (d, st')"
      by (cases "compute_depth stacks (n_globalTid n) (n_start n) (n_end n)")
    show ?thesis using True c Cons.IH[of st']
      by (auto simp: List.map_filter_simps split: option.splits)
  qed
qed

lemma desc_snoc:
  "sorted (rev (b @ [l])) \<longleftrightarrow> sorted (rev b) \<and> (\<forall>x\<in>set b. l \<le> x)"
  by auto

lemma pop_closed_filter:
  "sorted (rev stk) \<Longrightarrow> pop_closed stk s = filter (\<lambda>e. s < e) stk"
proof (induction stk s rule: pop_closed.induct)
  case (1 stk s)
  show ?case
  proof (cases "stk = []")
    case True
    then show ?thesis by (subst pop_closed.simps) simp
  next
    case False
    then obtain b l where bl: "stk = b @ [l]" by (metis rev_exhaust)
    have d: "sorted (rev b)" "\<forall>x\<in>set b. l \<le> x"
      using "1.prems" desc_snoc[of b l] bl by auto
    show ?thesis
    proof (cases "l \<le> s")
      case True
      have c: "stk \<noteq> [] \<and> last stk \<le> s" using bl True by simp
      have "pop_closed (butlast stk) s = filter (\<lambda>e. s < e) (butlast stk)"
        using "1.IH"[OF c] d(1) bl by simp
      then have "pop_closed b s = filter (\<lambda>e. s < e) b" using bl by simp
      moreover have "pop_closed stk s = pop_closed b s"
        using c bl by (subst pop_closed.simps) simp
      ultimately show ?thesis using bl True by simp
    next
      case gt: False
      then have "\<forall>e\<in>set stk. s < e" using d(2) bl by force
      then have "filter (\<lambda>e. s < e) stk = stk" by (simp add: filter_id_conv)
      moreover have "pop_closed stk s = stk"
        using gt bl by (subst pop_closed.simps) simp
      ultimately show ?thesis by simp
    qed
  qed
qed

lemma compute_depth_eq:
  "compute_depth stacks tid s e =
     (length (pop_closed (stack_of stacks tid) s),
      stacks(tid \<mapsto> rev (sort (pop_closed (stack_of stacks tid) s @ [e]))))"
  by (cases "stacks tid") (auto simp: compute_depth_def stack_of_def Let_def dom_def)

lemma length_filter_desc_sort:
  "length (filter P (rev (sort xs))) = length (filter P (xs :: int list))"
proof -
  have "length (filter P (rev (sort xs))) = length (filter P (sort xs))"
    by (simp flip: rev_filter)
  also have "\<dots> = length (sort (filter P xs))" by (simp add: filter_sort)
  finally show ?thesis by simp
qed

lemma depth_inv_empty: "depth_inv Map.empty []"
  by (simp add: depth_inv_def stack_of_def)

lemma depth_inv_step:
  assumes inv: "depth_inv stacks prev" and le: "\<forall>p\<in>set prev. n_start p \<le> n_start n"
  shows "fst (compute_depth stacks (n_globalTid n) (n_start n) (n_end n)) =
           length (filter (\<lambda>p. n_globalTid p = n_globalTid n \<and> n_start n < n_end p) prev)"
    and "depth_inv (snd (compute_depth stacks (n_globalTid n) (n_start n) (n_end n))) (prev @ [n])"
proof -
  define tid where "tid = n_globalTid n"
  define stk where "stk = stack_of stacks tid"
  define popped where "popped = pop_closed stk (n_start n)"
  define stacks' where "stacks' = stacks(tid \<mapsto> rev (sort (popped @ [n_end n])))"
  have cd: "compute_depth stacks (n_globalTid n) (n_start n) (n_end n) = (length popped, stacks')"
    by (simp add: compute_depth_eq tid_def stk_def popped_def stacks'_def)
  have srt: "sorted (rev stk)" using inv by (simp add: depth_inv_def stk_def)
  have pf: "popped = filter (\<lambda>e. n_start n < e) stk"
    unfolding popped_def by (rule pop_closed_filter[OF srt])
  show "fst (compute_depth stacks (n_globalTid n) (n_start n) (n_end n)) =
           length (filter (\<lambda>p. n_globalTid p = n_globalTid n \<and> n_start n < n_end p) prev)"
    using inv le unfolding cd pf depth_inv_def stk_def tid_def by simp
  have "depth_inv stacks' (prev @ [n])"
    unfolding depth_inv_def
  proof (intro allI conjI impI)
    fix t
    show "sorted (rev (stack_of stacks' t))"
      using inv by (auto simp: stacks'_def stack_of_def depth_inv_def split: option.splits)
  next
    fix t s assume ge: "\<forall>p\<in>set (prev @ [n]). n_start p \<le> s"
    then have ge1: "\<forall>p\<in>set prev. n_start p \<le> s" and ge2: "n_start n \<le> s" by auto
    have base: "length (filter (\<lambda>e. s < e) (stack_of stacks t)) =
           length (filter (\<lambda>p. n_globalTid p = t \<and> s < n_end p) prev)"
      using inv ge1 by (simp add: depth_inv_def)
    show "length (filter (\<lambda>e. s < e) (stack_of stacks' t)) =
           length (filter (\<lambda>p. n_globalTid p = t \<and> s < n_end p) (prev @ [n]))"
    proof (cases "t = tid")
      case False
      then have "stack_of stacks' t = stack_of stacks t"
        by (simp add: stacks'_def stack_of_def)
      then show ?thesis using base False by (simp add: tid_def)
    next
      case True
      have "stack_of stacks' t = rev (sort (popped @ [n_end n]))"
        using True by (simp add: stacks'_def stack_of_def)
      then have "length (filter (\<lambda>e. s < e) (stack_of stacks' t)) =
          length (filter (\<lambda>e. s < e) (popped @ [n_end n]))"
        by (simp only: length_filter_desc_sort)
      also have "\<dots> = length (filter (\<lambda>e. s < e) (filter (\<lambda>e. n_start n < e) stk))
            + (if s < n_end n then 1 else 0)"
        by (simp add: pf)
      also have "filter (\<lambda>e. s < e) (filter (\<lambda>e. n_start n < e) stk) = filter (\<lambda>e. s < e) stk"
        using ge2 by (auto intro: filter_cong)
      finally show ?thesis using base True by (simp add: stk_def tid_def)
    qed
  qed
  then show "depth_inv (snd (compute_depth stacks (n_globalTid n) (n_start n) (n_end n))) (prev @ [n])"
    by (simp add: cd)
qed

lemma scope_depths_open_before:
  assumes "depth_inv stacks prev" "\<forall>n\<in>set ns. has_text n"
    "sorted (map n_start (prev @ ns))" "j < length ns"
  shows "scope_depths stacks ns ! j = open_before (prev @ ns) (length prev + j)"
  using assms
proof (induction ns arbitrary: stacks prev j)
  case Nil
  then show ?case by simp
next
  case (Cons n rest)
  define cd where "cd = compute_depth stacks (n_globalTid n) (n_start n) (n_end n)"
  have ht: "has_text n" using Cons.prems(2) by simp
  have le: "\<forall>p\<in>set prev. n_start p \<le> n_start n"
    using Cons.prems(3) by (auto simp: sorted_append)
  have d: "fst cd = length (filter (\<lambda>p. n_globalTid p = n_globalTid n \<and> n_start n < n_end p) prev)"
    and i: "depth_inv (snd cd) (prev @ [n])"
    unfolding cd_def using depth_inv_step[OF Cons.prems(1) le] by auto
  have sd: "scope_depths stacks (n # rest) = fst cd # scope_depths (snd cd) rest"
    using ht by (simp add: cd_def case_prod_beta)
  show ?case
  proof (cases j)
    case 0
    then show ?thesis using sd d by (simp add: open_before_def)
  next
    case (Suc j')
    have "scope_depths (snd cd) rest ! j' = open_before ((prev @ [n]) @ rest) (length (prev @ [n]) + j')"
      by (rule Cons.IH[OF i]) (use Cons.prems Suc in auto)
    then show ?thesis using sd Suc by simp
  qed
qed

lemma scope_depths_filter: "scope_depths stacks (filter has_text nvtx) = scope_depths stacks nvtx"
  by (induction nvtx arbitrary: stacks) (auto simp: case_prod_beta)

lemma open_before_card:
  "j < length ns \<Longrightarrow> open_before ns j =
     card {k. k < j \<and> n_globalTid (ns ! k) = n_globalTid (ns ! j) \<and> n_start (ns ! j) < n_end (ns ! k)}"
proof -
  assume j: "j < length ns"
  have "{i. i < length (take j ns) \<and>
          (n_globalTid (take j ns ! i) = n_globalTid (ns ! j) \<and> n_start (ns ! j) < n_end (take j ns ! i))}
      = {k. k < j \<and> n_globalTid (ns ! k) = n_globalTid (ns ! j) \<and> n_start (ns ! j) < n_end (ns ! k)}"
    using j by auto
  then show ?thesis unfolding open_before_def length_filter_conv_card by simp
qed

lemma open_before_mono:
  assumes disc: "\<forall>j<length ns. \<forall>i<j. n_globalTid (ns ! i) = n_globalTid (ns ! j) \<longrightarrow>
            n_end (ns ! i) \<le> n_start (ns ! j) \<or> n_end (ns ! j) \<le> n_end (ns ! i)"
    and wf: "\<forall>n\<in>set ns. n_start n < n_end n"
    and j: "j < length ns" and ij: "i < j"
    and tid: "n_globalTid (ns ! i) = n_globalTid (ns ! j)"
    and inside: "n_end (ns ! j) \<le> n_end (ns ! i)"
  shows "open_before ns i < open_before ns j"
proof -
  define A where "A = {k. k < i \<and> n_globalTid (ns ! k) = n_globalTid (ns ! i) \<and> n_start (ns ! i) < n_end (ns ! k)}"
  define B where "B = {k. k < j \<and> n_globalTid (ns ! k) = n_globalTid (ns ! j) \<and> n_start (ns ! j) < n_end (ns ! k)}"
  have wj: "n_start (ns ! j) < n_end (ns ! j)" using wf j by simp
  have "A \<subseteq> B"
  proof
    fix k assume "k \<in> A"
    then have k: "k < i" "n_globalTid (ns ! k) = n_globalTid (ns ! i)" "n_start (ns ! i) < n_end (ns ! k)"
      by (auto simp: A_def)
    have "i < length ns" using ij j by simp
    then have "n_end (ns ! k) \<le> n_start (ns ! i) \<or> n_end (ns ! i) \<le> n_end (ns ! k)"
      using disc k by blast
    then have "n_end (ns ! i) \<le> n_end (ns ! k)" using k(3) by auto
    then show "k \<in> B" using k ij tid inside wj by (auto simp: B_def)
  qed
  moreover have "i \<in> B" using ij tid inside wj by (auto simp: B_def)
  moreover have "i \<notin> A" by (simp add: A_def)
  ultimately have "insert i A \<subseteq> B" by simp
  moreover have "finite B" by (simp add: B_def)
  ultimately have "card (insert i A) \<le> card B" by (rule card_mono[rotated])
  moreover have "finite A" by (simp add: A_def)
  then have "card (insert i A) = Suc (card A)" using \<open>i \<notin> A\<close> by simp
  ultimately have "card A < card B" by simp
  then show ?thesis using open_before_card[OF j] open_before_card[of i ns] ij j
    by (simp add: A_def B_def)
qed

lemma projected_scopes_sorted: "sorted (map n_start (projected_scopes prof device trim pad))"
proof -
  have "sorted (map n_start (nvtx_events prof (gpu_threads prof device) (fst trim - pad, snd trim)))"
    by (simp add: nvtx_events_def)
  then show ?thesis unfolding projected_scopes_def by (rule sorted_filter)
qed

lemma projected_scopes_wf:
  "\<forall>n\<in>set (projected_scopes prof device trim pad). n_start n < n_end n \<and> has_text n"
  by (auto simp: projected_scopes_def nvtx_events_def)


text \<open>
  The hypothesis of the next theorem holds when the scopes of a thread are pairwise
  disjoint or nested and start at distinct times.
\<close>

lemma nested_or_disjoint_ordered:
  assumes srt: "sorted (map n_start ns)"
    and wf: "\<forall>n\<in>set ns. n_start n < n_end n"
    and dist: "\<forall>j<length ns. \<forall>i<j. n_globalTid (ns ! i) = n_globalTid (ns ! j) \<longrightarrow>
                 n_start (ns ! i) \<noteq> n_start (ns ! j)"
    and disc: "\<forall>j<length ns. \<forall>i<j. n_globalTid (ns ! i) = n_globalTid (ns ! j) \<longrightarrow>
                 n_end (ns ! i) \<le> n_start (ns ! j) \<or> n_end (ns ! j) \<le> n_start (ns ! i)
                 \<or> (n_start (ns ! i) \<le> n_start (ns ! j) \<and> n_end (ns ! j) \<le> n_end (ns ! i))
                 \<or> (n_start (ns ! j) \<le> n_start (ns ! i) \<and> n_end (ns ! i) \<le> n_end (ns ! j))"
  shows "\<forall>j<length ns. \<forall>i<j. n_globalTid (ns ! i) = n_globalTid (ns ! j) \<longrightarrow>
           n_end (ns ! i) \<le> n_start (ns ! j) \<or> n_end (ns ! j) \<le> n_end (ns ! i)"
proof (intro allI impI)
  fix j i assume j: "j < length ns" and i: "i < j"
    and t: "n_globalTid (ns ! i) = n_globalTid (ns ! j)"
  have "n_start (ns ! i) \<le> n_start (ns ! j)"
    using srt i j by (simp add: sorted_iff_nth_mono)
  then have lt: "n_start (ns ! i) < n_start (ns ! j)" using dist i j t by force
  have wj: "n_start (ns ! j) < n_end (ns ! j)" using wf j by simp
  show "n_end (ns ! i) \<le> n_start (ns ! j) \<or> n_end (ns ! j) \<le> n_end (ns ! i)"
    using disc[rule_format, OF j i t] lt wj by linarith
qed

text \<open>
  Claim C9, as the code has it. Depths are natural numbers. When, in processing order,
  every scope either has ended when a later scope of its thread starts or ends no earlier
  than that scope, the depth of a scope is strictly greater than the depth of every scope of
  its thread that precedes it and contains it, its immediate containing scope among them.
  The emitted records carry these depths.
\<close>

theorem projector_depth:
  assumes "\<forall>j<length (projected_scopes prof device trim pad). \<forall>i<j.
             n_globalTid (projected_scopes prof device trim pad ! i)
               = n_globalTid (projected_scopes prof device trim pad ! j) \<longrightarrow>
             n_end (projected_scopes prof device trim pad ! i)
               \<le> n_start (projected_scopes prof device trim pad ! j)
             \<or> n_end (projected_scopes prof device trim pad ! j)
               \<le> n_end (projected_scopes prof device trim pad ! i)"
  shows "(kernel_map prof device \<noteq> [] \<longrightarrow>
            project_nvtx prof device trim pad =
              List.map_filter
                (\<lambda>(n, d). emit (kernel_map prof device)
                            (runtime_index prof (gpu_threads prof device)
                               (fst trim - pad, snd trim + 2000000000)) trim n d)
                (zip (projected_scopes prof device trim pad) (projected_depths prof device trim pad)))
       \<and> length (projected_depths prof device trim pad)
           = length (projected_scopes prof device trim pad)
       \<and> (\<forall>j<length (projected_scopes prof device trim pad). \<forall>i<j.
             n_globalTid (projected_scopes prof device trim pad ! i)
               = n_globalTid (projected_scopes prof device trim pad ! j)
             \<and> n_start (projected_scopes prof device trim pad ! i)
               \<le> n_start (projected_scopes prof device trim pad ! j)
             \<and> n_end (projected_scopes prof device trim pad ! j)
               \<le> n_end (projected_scopes prof device trim pad ! i) \<longrightarrow>
             projected_depths prof device trim pad ! i < projected_depths prof device trim pad ! j)
       \<and> (\<forall>r\<in>set (project_nvtx prof device trim pad). 0 \<le> int (p_depth r))"
proof -
  define ns where "ns = projected_scopes prof device trim pad"
  define nvtx where "nvtx = nvtx_events prof (gpu_threads prof device) (fst trim - pad, snd trim)"
  define ds where "ds = projected_depths prof device trim pad"
  have ds: "ds = scope_depths Map.empty ns"
    by (simp add: ds_def projected_depths_def ns_def projected_scopes_def scope_depths_filter)
  have loop: "project_loop kmap rt_idx trim Map.empty nvtx =
     List.map_filter (\<lambda>(n, d). emit kmap rt_idx trim n d) (zip ns ds)
     \<and> length ds = length ns" for kmap rt_idx
    using project_loop_depths[of kmap rt_idx trim Map.empty nvtx]
    by (simp add: ns_def projected_scopes_def ds_def projected_depths_def nvtx_def)
  have 1: "kernel_map prof device \<noteq> [] \<longrightarrow>
            project_nvtx prof device trim pad =
              List.map_filter
                (\<lambda>(n, d). emit (kernel_map prof device)
                            (runtime_index prof (gpu_threads prof device)
                               (fst trim - pad, snd trim + 2000000000)) trim n d)
                (zip ns ds)"
    using loop by (simp add: project_nvtx_def Let_def nvtx_def)
  have 2: "length ds = length ns" using loop by simp
  have srt: "sorted (map n_start ([] @ ns))" using projected_scopes_sorted by (simp add: ns_def)
  have wf: "\<forall>n\<in>set ns. n_start n < n_end n" and ht: "\<forall>n\<in>set ns. has_text n"
    using projected_scopes_wf by (auto simp: ns_def)
  have ob: "ds ! j = open_before ns j" if "j < length ns" for j
    using scope_depths_open_before[OF depth_inv_empty ht srt that] by (simp add: ds)
  have 3: "\<forall>j<length ns. \<forall>i<j.
             n_globalTid (ns ! i) = n_globalTid (ns ! j)
             \<and> n_start (ns ! i) \<le> n_start (ns ! j)
             \<and> n_end (ns ! j) \<le> n_end (ns ! i) \<longrightarrow> ds ! i < ds ! j"
  proof (intro allI impI)
    fix j i assume j: "j < length ns" and i: "i < j"
      and c: "n_globalTid (ns ! i) = n_globalTid (ns ! j)
             \<and> n_start (ns ! i) \<le> n_start (ns ! j) \<and> n_end (ns ! j) \<le> n_end (ns ! i)"
    have "open_before ns i < open_before ns j"
      by (rule open_before_mono[OF _ wf j i]) (use assms c in \<open>auto simp: ns_def\<close>)
    then show "ds ! i < ds ! j" using ob j i by simp
  qed
  show ?thesis using 1 2 3 unfolding ns_def ds_def by simp
qed

theorem projector_depth_witness:
  "projected_scopes mixed_profile 0 (0, 1000) 0 =
     [\<lparr>n_text = Some ''layer'', n_globalTid = 1, n_start = 0, n_end = 100\<rparr>,
      \<lparr>n_text = Some ''attention'', n_globalTid = 1, n_start = 50, n_end = 90\<rparr>]
   \<and> projected_depths mixed_profile 0 (0, 1000) 0 ! 0 < projected_depths mixed_profile 0 (0, 1000) 0 ! 1
   \<and> project_nvtx mixed_profile 0 (0, 1000) 0 =
       [\<lparr>p_name = ''layer'', p_start = 200, p_end = 230, p_depth = 0, p_projected = True\<rparr>,
        \<lparr>p_name = ''attention'', p_start = 220, p_end = 230, p_depth = 1, p_projected = True\<rparr>]"
proof -
  have ns: "projected_scopes mixed_profile 0 (0, 1000) 0 =
     [\<lparr>n_text = Some ''layer'', n_globalTid = 1, n_start = 0, n_end = 100\<rparr>,
      \<lparr>n_text = Some ''attention'', n_globalTid = 1, n_start = 50, n_end = 90\<rparr>]"
    by code_simp
  have out: "project_nvtx mixed_profile 0 (0, 1000) 0 =
       [\<lparr>p_name = ''layer'', p_start = 200, p_end = 230, p_depth = 0, p_projected = True\<rparr>,
        \<lparr>p_name = ''attention'', p_start = 220, p_end = 230, p_depth = 1, p_projected = True\<rparr>]"
    by code_simp
  have h: "\<forall>j<length (projected_scopes mixed_profile 0 (0, 1000) 0). \<forall>i<j.
             n_globalTid (projected_scopes mixed_profile 0 (0, 1000) 0 ! i)
               = n_globalTid (projected_scopes mixed_profile 0 (0, 1000) 0 ! j) \<longrightarrow>
             n_end (projected_scopes mixed_profile 0 (0, 1000) 0 ! i)
               \<le> n_start (projected_scopes mixed_profile 0 (0, 1000) 0 ! j)
             \<or> n_end (projected_scopes mixed_profile 0 (0, 1000) 0 ! j)
               \<le> n_end (projected_scopes mixed_profile 0 (0, 1000) 0 ! i)"
    unfolding ns
  proof (intro allI impI)
    fix j i :: nat
    assume "j < length [\<lparr>n_text = Some ''layer'', n_globalTid = 1, n_start = 0, n_end = 100\<rparr>,
      \<lparr>n_text = Some ''attention'', n_globalTid = 1, n_start = 50, n_end = (90::int)\<rparr>]" "i < j"
    then have "j = 1" "i = 0" by auto
    then show "n_end ([\<lparr>n_text = Some ''layer'', n_globalTid = 1, n_start = 0, n_end = 100\<rparr>,
      \<lparr>n_text = Some ''attention'', n_globalTid = 1, n_start = 50, n_end = 90\<rparr>] ! i)
               \<le> n_start ([\<lparr>n_text = Some ''layer'', n_globalTid = 1, n_start = 0, n_end = 100\<rparr>,
      \<lparr>n_text = Some ''attention'', n_globalTid = 1, n_start = 50, n_end = 90\<rparr>] ! j)
             \<or> n_end ([\<lparr>n_text = Some ''layer'', n_globalTid = 1, n_start = 0, n_end = 100\<rparr>,
      \<lparr>n_text = Some ''attention'', n_globalTid = 1, n_start = 50, n_end = 90\<rparr>] ! j)
               \<le> n_end ([\<lparr>n_text = Some ''layer'', n_globalTid = 1, n_start = 0, n_end = 100\<rparr>,
      \<lparr>n_text = Some ''attention'', n_globalTid = 1, n_start = (50::int), n_end = 90\<rparr>] ! i)"
      by simp
  qed
  have m: "\<forall>j<length (projected_scopes mixed_profile 0 (0, 1000) 0). \<forall>i<j.
             n_globalTid (projected_scopes mixed_profile 0 (0, 1000) 0 ! i)
               = n_globalTid (projected_scopes mixed_profile 0 (0, 1000) 0 ! j)
             \<and> n_start (projected_scopes mixed_profile 0 (0, 1000) 0 ! i)
               \<le> n_start (projected_scopes mixed_profile 0 (0, 1000) 0 ! j)
             \<and> n_end (projected_scopes mixed_profile 0 (0, 1000) 0 ! j)
               \<le> n_end (projected_scopes mixed_profile 0 (0, 1000) 0 ! i) \<longrightarrow>
             projected_depths mixed_profile 0 (0, 1000) 0 ! i
               < projected_depths mixed_profile 0 (0, 1000) 0 ! j"
    using projector_depth[OF h] by blast
  have "projected_depths mixed_profile 0 (0, 1000) 0 ! 0 < projected_depths mixed_profile 0 (0, 1000) 0 ! 1"
    using m[rule_format, of 1 0] unfolding ns by simp
  then show ?thesis using ns out by simp
qed


text \<open>
  Claim C9 as stated fails when a scope and its first nested scope start at the same time
  and the nested one is processed first: \<open>step\<close> is the only scope that contains
  \<open>forward\<close>, and both are emitted with depth 1.
\<close>

theorem projector_depth_tie:
  "projected_scopes depth_tie_profile 0 (0, 100) 0 =
     [\<lparr>n_text = Some ''setup'', n_globalTid = 1, n_start = 0, n_end = 5\<rparr>,
      \<lparr>n_text = Some ''step'', n_globalTid = 1, n_start = 0, n_end = 10\<rparr>,
      \<lparr>n_text = Some ''forward'', n_globalTid = 1, n_start = 6, n_end = 8\<rparr>]
   \<and> project_nvtx depth_tie_profile 0 (0, 100) 0 =
       [\<lparr>p_name = ''setup'', p_start = 0, p_end = 5, p_depth = 0, p_projected = False\<rparr>,
        \<lparr>p_name = ''step'', p_start = 50, p_end = 60, p_depth = 1, p_projected = True\<rparr>,
        \<lparr>p_name = ''forward'', p_start = 50, p_end = 60, p_depth = 1, p_projected = True\<rparr>]
   \<and> \<not> (p_depth (project_nvtx depth_tie_profile 0 (0, 100) 0 ! 1)
          < p_depth (project_nvtx depth_tie_profile 0 (0, 100) 0 ! 2))"
  by code_simp


section \<open>Leaf exclusivity\<close>

lemma ntype_cases: "ntype c \<noteq> KernelT \<longleftrightarrow> ntype c = NvtxT"
  by (cases "ntype c") auto

lemma all_leaves_eq:
  "all_leaves n = (if ntype n \<noteq> NvtxT then []
                   else kern_children n @ forest_leaves (nvtx_children n))"
  by (cases n) (simp add: kern_children_def nvtx_children_def forest_leaves_def)

lemma collect_set:
  "set (collect_kernel_starts n) =
     nstart ` (set (kern_children n) \<union> set (forest_leaves (nvtx_children n)))"
proof (induction n rule: collect_kernel_starts.induct)
  case (1 nm dm s e st ty du cs)
  have ih: "\<And>c. c \<in> set cs \<Longrightarrow> ntype c = NvtxT \<Longrightarrow>
      set (collect_kernel_starts c) = nstart ` set (all_leaves c)"
    using 1 by (simp add: all_leaves_eq ntype_cases)
  show ?case
    by (auto simp: kern_children_def nvtx_children_def forest_leaves_def ih ntype_cases)
qed

lemma collect_leaves:
  "ntype n = NvtxT \<Longrightarrow> set (collect_kernel_starts n) = nstart ` set (all_leaves n)"
  by (simp add: collect_set all_leaves_eq)

lemma ntype_dedup [simp]: "ntype (deduplicate_node n) = ntype n"
  by (cases n) (simp add: Let_def)

lemma dedup_kernel [simp]: "ntype n = KernelT \<Longrightarrow> deduplicate_node n = n"
  by (cases n) simp

lemma filter_kernel_dedup:
  "filter (\<lambda>c. ntype c = KernelT)
     (map deduplicate_node (filter (\<lambda>c. ntype c \<noteq> KernelT \<or> P c) cs))
   = filter (\<lambda>c. P c) (filter (\<lambda>c. ntype c = KernelT) cs)"
  by (induction cs) auto

lemma filter_nvtx_dedup:
  "filter (\<lambda>c. ntype c = NvtxT)
     (map deduplicate_node (filter (\<lambda>c. ntype c \<noteq> KernelT \<or> P c) cs))
   = map deduplicate_node (filter (\<lambda>c. ntype c = NvtxT) cs)"
  by (induction cs) (auto simp: ntype_cases)

lemma children_dedup:
  "ntype n = NvtxT \<Longrightarrow>
     children (deduplicate_node n) =
       map deduplicate_node
         (filter (\<lambda>c. ntype c \<noteq> KernelT \<or> nstart c \<notin> claimed_below n) (children n))"
proof (cases n)
  case (Node nm dm s e st ty du cs)
  assume t: "ntype n = NvtxT"
  then have ty: "ty = NvtxT" using Node by simp
  have S: "set (concat (map collect_kernel_starts (filter (\<lambda>c. ntype c = NvtxT) cs)))
      = claimed_below n"
    using Node by (auto simp: claimed_below_def forest_leaves_def nvtx_children_def collect_leaves)
  have "children (deduplicate_node n) =
       map deduplicate_node
         (filter (\<lambda>c. ntype c \<noteq> KernelT \<or>
            nstart c \<notin> set (concat (map collect_kernel_starts (filter (\<lambda>c. ntype c = NvtxT) cs)))) cs)"
    unfolding Node ty deduplicate_node.simps Let_def by simp
  then show ?thesis unfolding S using Node by simp
qed

lemma kern_children_dedup:
  "ntype n = NvtxT \<Longrightarrow>
     kern_children (deduplicate_node n) =
       filter (\<lambda>c. nstart c \<notin> claimed_below n) (kern_children n)"
  unfolding kern_children_def by (simp only: children_dedup filter_kernel_dedup)

lemma nvtx_children_dedup:
  "ntype n = NvtxT \<Longrightarrow>
     nvtx_children (deduplicate_node n) = map deduplicate_node (nvtx_children n)"
  unfolding nvtx_children_def by (simp only: children_dedup filter_nvtx_dedup)

lemma fin_eq:
  "fin n = (if ntype n \<noteq> NvtxT then []
            else filter (\<lambda>c. nstart c \<notin> claimed_below n) (kern_children n)
                 @ Fin (nvtx_children n))"
  by (cases n) (simp add: kern_children_def nvtx_children_def forest_leaves_def Fin_def claimed_below_def)

lemma all_leaves_dedup: "all_leaves (deduplicate_node n) = fin n"
proof (induction n rule: fin.induct)
  case (1 nm dm s e st ty du cs)
  define n where "n = Node nm dm s e st ty du cs"
  show ?case
  proof (cases "ty = NvtxT")
    case False
    then show ?thesis by simp
  next
    case True
    then have t: "ntype n = NvtxT" by (simp add: n_def)
    have ih: "\<And>c. c \<in> set (nvtx_children n) \<Longrightarrow> all_leaves (deduplicate_node c) = fin c"
      using 1 True by (simp add: n_def nvtx_children_def)
    have "all_leaves (deduplicate_node n) =
        kern_children (deduplicate_node n) @ forest_leaves (nvtx_children (deduplicate_node n))"
      using t by (simp add: all_leaves_eq)
    also have "\<dots> = filter (\<lambda>c. nstart c \<notin> claimed_below n) (kern_children n)
        @ forest_leaves (map deduplicate_node (nvtx_children n))"
      using t by (simp add: kern_children_dedup nvtx_children_dedup)
    also have "forest_leaves (map deduplicate_node (nvtx_children n)) = Fin (nvtx_children n)"
      using ih by (simp add: forest_leaves_def Fin_def comp_def cong: map_cong)
    finally show ?thesis using t by (simp add: fin_eq n_def)
  qed
qed

lemma forest_leaves_dedup: "forest_leaves (deduplicate_kernels nodes) = Fin nodes"
  by (simp add: forest_leaves_def deduplicate_kernels_def Fin_def comp_def all_leaves_dedup)

lemma fin_subset: "set (fin n) \<subseteq> set (all_leaves n)"
proof (induction n rule: fin.induct)
  case (1 nm dm s e st ty du cs)
  then show ?case by (fastforce split: if_splits)
qed

lemma Fin_subset: "set (Fin nodes) \<subseteq> set (forest_leaves nodes)"
  using fin_subset by (fastforce simp: Fin_def forest_leaves_def)

lemma forest_leaves_append [simp]:
  "forest_leaves (xs @ ys) = forest_leaves xs @ forest_leaves ys"
  by (simp add: forest_leaves_def)

lemma forest_leaves_single [simp]: "forest_leaves [n] = all_leaves n"
  by (simp add: forest_leaves_def)

lemma Fin_append [simp]: "Fin (xs @ ys) = Fin xs @ Fin ys"
  by (simp add: Fin_def)

lemma Fin_single [simp]: "Fin [n] = fin n"
  by (simp add: Fin_def)

lemma forest_leaves_children: "forest_leaves (nvtx_children n) = forest_leaves (children n)"
proof -
  have "concat (map all_leaves (filter (\<lambda>c. ntype c = NvtxT) cs)) = concat (map all_leaves cs)" for cs
    by (induction cs) (auto simp: all_leaves_eq)
  then show ?thesis by (simp add: forest_leaves_def nvtx_children_def)
qed

lemma Fin_children: "Fin (nvtx_children n) = Fin (children n)"
proof -
  have "concat (map fin (filter (\<lambda>c. ntype c = NvtxT) cs)) = concat (map fin cs)" for cs
    by (induction cs) (auto simp: fin_eq)
  then show ?thesis by (simp add: Fin_def nvtx_children_def)
qed

lemma all_leaves_scope:
  "ntype n = NvtxT \<Longrightarrow> all_leaves n = kern_children n @ forest_leaves (children n)"
  by (simp add: all_leaves_eq forest_leaves_children)

lemma fin_scope:
  "ntype n = NvtxT \<Longrightarrow>
     fin n = filter (\<lambda>c. nstart c \<notin> nstart ` set (forest_leaves (children n))) (kern_children n)
             @ Fin (children n)"
  by (simp add: fin_eq Fin_children claimed_below_def forest_leaves_children)

lemma with_children_sel [simp]:
  "children (with_children n cs) = cs" "ntype (with_children n cs) = ntype n"
  by (cases n; simp add: with_children_def)+

lemma append_at_Suc:
  "nodes \<noteq> [] \<Longrightarrow>
     append_at (Suc d) new nodes =
       butlast nodes @ [with_children (last nodes) (append_at d new (children (last nodes)))]"
  by (cases "last nodes") (simp add: with_children_def)

lemma kerns_append_at:
  "spine_ok d cs \<Longrightarrow> ntype new = NvtxT \<Longrightarrow>
     filter (\<lambda>c. ntype c = KernelT) (append_at d new cs) = filter (\<lambda>c. ntype c = KernelT) cs"
proof (cases d)
  case 0
  assume "ntype new = NvtxT"
  then show ?thesis using 0 by simp
next
  case (Suc d')
  assume ok: "spine_ok d cs" and nt: "ntype new = NvtxT"
  then have ne: "cs \<noteq> []" and lt: "ntype (last cs) = NvtxT" using Suc by auto
  have "filter (\<lambda>c. ntype c = KernelT) cs =
        filter (\<lambda>c. ntype c = KernelT) (butlast cs @ [last cs])" using ne by simp
  also have "\<dots> = filter (\<lambda>c. ntype c = KernelT) (butlast cs)" using lt by simp
  finally show ?thesis using Suc ne lt by (simp add: append_at_Suc del: append_at.simps)
qed

lemma forest_leaves_append_at:
  "spine_ok d nodes \<Longrightarrow> ntype new = NvtxT \<Longrightarrow>
     forest_leaves (append_at d new nodes) = forest_leaves nodes @ all_leaves new"
proof (induction d arbitrary: nodes)
  case 0
  then show ?case by simp
next
  case (Suc d)
  then have ne: "nodes \<noteq> []" and lt: "ntype (last nodes) = NvtxT"
    and ok: "spine_ok d (children (last nodes))" by auto
  define n where "n = last nodes"
  define n' where "n' = with_children n (append_at d new (children n))"
  have k: "kern_children n' = kern_children n"
    using kerns_append_at[OF ok Suc.prems(2)] by (simp add: kern_children_def n'_def n_def)
  have "all_leaves n' = kern_children n' @ forest_leaves (children n')"
    using lt by (simp add: all_leaves_scope n'_def n_def)
  also have "\<dots> = kern_children n @ forest_leaves (children n) @ all_leaves new"
    using Suc.IH[OF ok Suc.prems(2)] k by (simp add: n'_def n_def)
  also have "\<dots> = all_leaves n @ all_leaves new"
    using lt by (simp add: all_leaves_scope n_def)
  finally have a: "all_leaves n' = all_leaves n @ all_leaves new" .
  have "forest_leaves (butlast nodes @ [n]) = forest_leaves (butlast nodes) @ all_leaves n"
    by simp
  moreover have "butlast nodes @ [n] = nodes" using ne by (simp add: n_def)
  ultimately have fl: "forest_leaves nodes = forest_leaves (butlast nodes) @ all_leaves n"
    by simp
  have "append_at (Suc d) new nodes = butlast nodes @ [n']"
    using ne by (simp add: append_at_Suc n'_def n_def del: append_at.simps)
  then show ?case using a fl by simp
qed

lemma split_last:
  assumes "nodes \<noteq> []"
  shows "forest_leaves nodes = forest_leaves (butlast nodes) @ all_leaves (last nodes)"
    and "Fin nodes = Fin (butlast nodes) @ fin (last nodes)"
proof -
  define n where "n = last nodes"
  have e: "butlast nodes @ [n] = nodes" using assms by (simp add: n_def)
  have "forest_leaves (butlast nodes @ [n]) = forest_leaves (butlast nodes) @ all_leaves n"
    "Fin (butlast nodes @ [n]) = Fin (butlast nodes) @ fin n"
    by simp_all
  then show "forest_leaves nodes = forest_leaves (butlast nodes) @ all_leaves (last nodes)"
    and "Fin nodes = Fin (butlast nodes) @ fin (last nodes)"
    unfolding e by (simp_all add: n_def)
qed

lemma fin_append_at_node:
  assumes ok: "spine_ok d (children n)" and t: "ntype n = NvtxT" and nt: "ntype new = NvtxT"
  shows "fin (with_children n (append_at d new (children n))) =
           filter (\<lambda>c. nstart c \<notin> nstart ` set (all_leaves new))
             (filter (\<lambda>c. nstart c \<notin> nstart ` set (forest_leaves (children n))) (kern_children n))
           @ Fin (append_at d new (children n))"
proof -
  define n' where "n' = with_children n (append_at d new (children n))"
  have k: "kern_children n' = kern_children n"
    using kerns_append_at[OF ok nt] by (simp add: kern_children_def n'_def)
  have fl: "forest_leaves (children n') = forest_leaves (children n) @ all_leaves new"
    using forest_leaves_append_at[OF ok nt] by (simp add: n'_def)
  have "fin n' = filter (\<lambda>c. nstart c \<notin> nstart ` set (forest_leaves (children n'))) (kern_children n')
             @ Fin (children n')"
    using t by (simp add: fin_scope n'_def)
  also have "filter (\<lambda>c. nstart c \<notin> nstart ` set (forest_leaves (children n'))) (kern_children n')
      = filter (\<lambda>c. nstart c \<notin> nstart ` set (all_leaves new))
             (filter (\<lambda>c. nstart c \<notin> nstart ` set (forest_leaves (children n))) (kern_children n))"
    unfolding fl k by (auto intro: filter_cong)
  finally show ?thesis by (simp add: n'_def)
qed

lemma Fin_append_at_subset:
  "spine_ok d nodes \<Longrightarrow> ntype new = NvtxT \<Longrightarrow>
     set (Fin (append_at d new nodes)) \<subseteq> set (Fin nodes) \<union> set (fin new)"
proof (induction d arbitrary: nodes)
  case 0
  then show ?case by simp
next
  case (Suc d)
  then have ne: "nodes \<noteq> []" and lt: "ntype (last nodes) = NvtxT"
    and ok: "spine_ok d (children (last nodes))" by auto
  define n where "n = last nodes"
  define n' where "n' = with_children n (append_at d new (children n))"
  have ap: "append_at (Suc d) new nodes = butlast nodes @ [n']"
    using ne by (simp add: append_at_Suc n'_def n_def del: append_at.simps)
  have fn': "set (fin n') \<subseteq> set (fin n) \<union> set (fin new)"
    using fin_append_at_node[OF ok lt Suc.prems(2)] Suc.IH[OF ok Suc.prems(2)] lt
    by (auto simp: n'_def n_def fin_scope)
  show ?case unfolding ap using fn' split_last(2)[OF ne] by (auto simp: n_def)
qed

lemma Fin_append_at_distinct:
  "spine_ok d nodes \<Longrightarrow> ntype new = NvtxT \<Longrightarrow> distinct (Fin nodes) \<Longrightarrow>
   distinct (fin new) \<Longrightarrow> set (all_leaves new) \<inter> set (off_spine d nodes) = {} \<Longrightarrow>
     distinct (Fin (append_at d new nodes))"
proof (induction d arbitrary: nodes)
  case 0
  have "set (Fin nodes) \<subseteq> set (forest_leaves nodes)" by (rule Fin_subset)
  moreover have "set (fin new) \<subseteq> set (all_leaves new)" by (rule fin_subset)
  ultimately have "set (Fin nodes) \<inter> set (fin new) = {}" using "0.prems"(5) by auto
  then show ?case using 0 by simp
next
  case (Suc d)
  then have ne: "nodes \<noteq> []" and lt: "ntype (last nodes) = NvtxT"
    and ok: "spine_ok d (children (last nodes))" by auto
  define n where "n = last nodes"
  define G where "G = butlast nodes"
  define n' where "n' = with_children n (append_at d new (children n))"
  define A where "A = set (all_leaves new)"
  define keep where "keep = filter (\<lambda>c. nstart c \<notin> nstart ` set (forest_leaves (children n))) (kern_children n)"
  define keep' where "keep' = filter (\<lambda>c. nstart c \<notin> nstart ` A) keep"
  have ap: "append_at (Suc d) new nodes = G @ [n']"
    using ne by (simp add: append_at_Suc n'_def n_def G_def del: append_at.simps)
  have FinF: "Fin nodes = Fin G @ fin n" using split_last(2)[OF ne] by (simp add: n_def G_def)
  have fn: "fin n = keep @ Fin (children n)" using lt by (simp add: fin_scope n_def keep_def)
  have fn': "fin n' = keep' @ Fin (append_at d new (children n))"
    using fin_append_at_node[OF ok lt Suc.prems(2)]
    by (simp add: n'_def n_def keep'_def keep_def A_def)
  have offs: "off_spine (Suc d) nodes = forest_leaves G @ off_spine d (children n)"
    by (simp add: G_def n_def)
  have Aoff: "A \<inter> set (forest_leaves G) = {}" "A \<inter> set (off_spine d (children n)) = {}"
    using Suc.prems(5) unfolding offs A_def by auto
  have dG: "distinct (Fin G)" and dn: "distinct (fin n)"
    and Gn: "set (Fin G) \<inter> set (fin n) = {}"
    using Suc.prems(3) unfolding FinF by auto
  have dk: "distinct keep" and dc: "distinct (Fin (children n))"
    and kc: "set keep \<inter> set (Fin (children n)) = {}"
    using dn unfolding fn by auto
  have ok': "spine_ok d (children n)" using ok by (simp add: n_def)
  have dc': "distinct (Fin (append_at d new (children n)))"
    by (rule Suc.IH[OF ok' Suc.prems(2) dc Suc.prems(4)]) (use Aoff in \<open>auto simp: A_def\<close>)
  have sub': "set (Fin (append_at d new (children n))) \<subseteq> set (Fin (children n)) \<union> set (fin new)"
    by (rule Fin_append_at_subset[OF ok' Suc.prems(2)])
  have finA: "set (fin new) \<subseteq> A" unfolding A_def by (rule fin_subset)
  have k'A: "set keep' \<inter> A = {}" unfolding keep'_def by auto
  have k'k: "set keep' \<subseteq> set keep" unfolding keep'_def by auto
  have dk': "distinct keep'" unfolding keep'_def using dk by simp
  have kc': "set keep' \<inter> set (Fin (append_at d new (children n))) = {}"
    using sub' finA k'A k'k kc by blast
  have dn': "distinct (fin n')" unfolding fn' using dk' dc' kc' by simp
  have GA: "set (Fin G) \<inter> A = {}" using Fin_subset[of G] Aoff(1) by blast
  have "set (fin n') \<subseteq> set (fin n) \<union> A"
    unfolding fn' fn using sub' finA k'k by auto
  then have Gn': "set (Fin G) \<inter> set (fin n') = {}" using Gn GA by blast
  show ?case unfolding ap using dG dn' Gn' by simp
qed

lemma spine_append_at:
  "spine_ok d nodes \<Longrightarrow> ntype new = NvtxT \<Longrightarrow> forest_leaves (children new) = [] \<Longrightarrow>
     spine_ok (Suc d) (append_at d new nodes)
     \<and> spine_kernels (Suc d) (append_at d new nodes) = spine_kernels d nodes @ [kern_children new]
     \<and> off_spine (Suc d) (append_at d new nodes) = off_spine d nodes"
proof (induction d arbitrary: nodes)
  case 0
  then show ?case by simp
next
  case (Suc d)
  then have ne: "nodes \<noteq> []" and lt: "ntype (last nodes) = NvtxT"
    and ok: "spine_ok d (children (last nodes))" by auto
  define n where "n = last nodes"
  define n' where "n' = with_children n (append_at d new (children n))"
  have ap: "append_at (Suc d) new nodes = butlast nodes @ [n']"
    using ne by (simp add: append_at_Suc n'_def n_def del: append_at.simps)
  have k: "kern_children n' = kern_children n"
    using kerns_append_at[OF ok Suc.prems(2)] by (simp add: kern_children_def n'_def n_def)
  have ih: "spine_ok (Suc d) (children n')"
    "spine_kernels (Suc d) (children n') = spine_kernels d (children n) @ [kern_children new]"
    "off_spine (Suc d) (children n') = off_spine d (children n)"
    using Suc.IH[OF ok Suc.prems(2,3)] by (simp_all add: n'_def n_def)
  have t': "ntype n' = NvtxT" using lt by (simp add: n'_def n_def)
  show ?case unfolding ap using ih t' k
    by (simp add: n_def del: append_at.simps spine_ok.simps spine_kernels.simps off_spine.simps)
       (simp add: n_def)
qed

lemma forest_leaves_spine:
  "spine_ok d nodes \<Longrightarrow>
     set (forest_leaves nodes) \<subseteq> set (off_spine d nodes) \<union> \<Union> (set ` set (spine_kernels d nodes))"
proof (induction d arbitrary: nodes)
  case 0
  then show ?case by simp
next
  case (Suc d)
  then have ne: "nodes \<noteq> []" and lt: "ntype (last nodes) = NvtxT"
    and ok: "spine_ok d (children (last nodes))" by auto
  have "set (forest_leaves nodes) =
      set (forest_leaves (butlast nodes)) \<union> set (kern_children (last nodes))
        \<union> set (forest_leaves (children (last nodes)))"
    using split_last(1)[OF ne] lt by (auto simp: all_leaves_scope)
  then show ?case using Suc.IH[OF ok] by auto
qed

lemma spine_prefix:
  "m \<le> d \<Longrightarrow> spine_ok d nodes \<Longrightarrow>
     spine_ok m nodes
     \<and> spine_kernels m nodes = take m (spine_kernels d nodes)
     \<and> set (off_spine m nodes)
         \<subseteq> set (off_spine d nodes) \<union> \<Union> (set ` set (drop m (spine_kernels d nodes)))"
proof (induction m arbitrary: d nodes)
  case 0
  then show ?case using forest_leaves_spine[of d nodes] by simp
next
  case (Suc m)
  then obtain d' where d: "d = Suc d'" by (cases d) auto
  then have ne: "nodes \<noteq> []" and lt: "ntype (last nodes) = NvtxT"
    and ok: "spine_ok d' (children (last nodes))" using Suc.prems by auto
  have le: "m \<le> d'" using Suc.prems d by simp
  show ?case using Suc.IH[OF le ok] ne lt d by auto
qed

lemma pop_ended_spec:
  "\<exists>m\<le>length stack. pop_ended stack s = take m stack
       \<and> (\<forall>e\<in>set (drop m stack). e_cpu_end e \<le> s)"
proof (induction stack s rule: pop_ended.induct)
  case (1 stack s)
  show ?case
  proof (cases "stack \<noteq> [] \<and> e_cpu_end (last stack) \<le> s")
    case False
    then have "pop_ended stack s = stack" by (subst pop_ended.simps) auto
    then show ?thesis by (intro exI[of _ "length stack"]) simp
  next
    case True
    then obtain b l where bl: "stack = b @ [l]" by (metis rev_exhaust)
    have st: "pop_ended stack s = pop_ended b s"
      using True bl by (subst pop_ended.simps) simp
    obtain m where m: "m \<le> length b" "pop_ended b s = take m b"
      "\<forall>e\<in>set (drop m b). e_cpu_end e \<le> s"
      using "1.IH"[OF True] bl by auto
    have "pop_ended stack s = take m stack" using st m bl by simp
    moreover have "\<forall>e\<in>set (drop m stack). e_cpu_end e \<le> s"
      using m True bl by auto
    ultimately show ?thesis using m(1) bl by (intro exI[of _ m]) simp
  qed
qed

lemma nest_Cons:
  "nest roots stack (entry # rest) =
     nest (append_at (length (pop_ended stack (e_cpu_start entry))) (scope_node entry) roots)
          (pop_ended stack (e_cpu_start entry) @ [entry]) rest"
  by (simp add: Let_def scope_node_def)

lemma scope_node_props:
  assumes "\<forall>k\<in>set (e_kernels entry). ntype k = KernelT"
  shows "ntype (scope_node entry) = NvtxT"
    and "kern_children (scope_node entry) = e_kernels entry"
    and "forest_leaves (children (scope_node entry)) = []"
    and "all_leaves (scope_node entry) = e_kernels entry"
    and "fin (scope_node entry) = e_kernels entry"
proof -
  have f1: "filter (\<lambda>c. ntype c = KernelT) (e_kernels entry) = e_kernels entry"
    using assms by (simp add: filter_id_conv)
  have f2: "filter (\<lambda>c. ntype c = NvtxT) (e_kernels entry) = []"
    using assms by (simp add: filter_empty_conv)
  show "ntype (scope_node entry) = NvtxT" by (simp add: scope_node_def)
  show "kern_children (scope_node entry) = e_kernels entry"
    by (simp add: scope_node_def kern_children_def f1)
  show "forest_leaves (children (scope_node entry)) = []"
    using forest_leaves_children[of "scope_node entry"]
    by (simp add: scope_node_def nvtx_children_def f2 forest_leaves_def)
  show "all_leaves (scope_node entry) = e_kernels entry"
    by (simp add: scope_node_def f1 f2)
  show "fin (scope_node entry) = e_kernels entry"
    by (simp add: scope_node_def f1 f2)
qed

lemma nest_distinct:
  assumes "spine_ok (length stack) roots"
    and "spine_kernels (length stack) roots = map e_kernels stack"
    and "distinct (Fin roots)"
    and "\<forall>x\<in>set (off_spine (length stack) roots).
           \<exists>e\<in>set seen. x \<in> set (e_kernels e) \<and> e_cpu_end e \<le> t"
    and "set stack \<subseteq> set seen"
    and "\<forall>e\<in>set es. t \<le> e_cpu_start e"
    and "sorted (map e_cpu_start es)"
    and "\<forall>e1\<in>set (seen @ es). \<forall>e2\<in>set (seen @ es).
           e_cpu_end e1 \<le> e_cpu_start e2 \<longrightarrow> set (e_kernels e1) \<inter> set (e_kernels e2) = {}"
    and "\<forall>e\<in>set es. distinct (e_kernels e) \<and> (\<forall>k\<in>set (e_kernels e). ntype k = KernelT)"
  shows "distinct (Fin (nest roots stack es))
       \<and> set (Fin (nest roots stack es)) \<subseteq> set (Fin roots) \<union> \<Union> (set ` e_kernels ` set es)"
  using assms
proof (induction es arbitrary: roots stack seen t)
  case Nil
  then show ?case by simp
next
  case (Cons N rest)
  define s where "s = e_cpu_start N"
  define new where "new = scope_node N"
  obtain m where m: "m \<le> length stack" "pop_ended stack s = take m stack"
    "\<forall>e\<in>set (drop m stack). e_cpu_end e \<le> s"
    using pop_ended_spec[of stack s] by blast
  define stack' where "stack' = take m stack"
  define roots' where "roots' = append_at m new roots"
  have lm: "length stack' = m" using m(1) by (simp add: stack'_def)
  have step: "nest roots stack (N # rest) = nest roots' (stack' @ [N]) rest"
    unfolding nest_Cons using m(2) lm by (simp add: s_def new_def stack'_def roots'_def)
  have kN: "\<forall>k\<in>set (e_kernels N). ntype k = KernelT" and dN: "distinct (e_kernels N)"
    using Cons.prems(9) by auto
  note np = scope_node_props[OF kN, folded new_def]
  have ts: "t \<le> s" using Cons.prems(6) by (simp add: s_def)
  have pre: "spine_ok m roots"
    "spine_kernels m roots = take m (map e_kernels stack)"
    "set (off_spine m roots) \<subseteq> set (off_spine (length stack) roots)
        \<union> \<Union> (set ` set (drop m (map e_kernels stack)))"
    using spine_prefix[OF m(1) Cons.prems(1)] Cons.prems(2) by auto
  have closed: "\<exists>e\<in>set seen. x \<in> set (e_kernels e) \<and> e_cpu_end e \<le> s"
    if "x \<in> set (off_spine m roots)" for x
  proof -
    from that pre(3) consider "x \<in> set (off_spine (length stack) roots)"
      | "x \<in> \<Union> (set ` set (drop m (map e_kernels stack)))" by blast
    then show ?thesis
    proof cases
      case 1
      then show ?thesis using Cons.prems(4) ts by fastforce
    next
      case 2
      then obtain e where "e \<in> set (drop m stack)" "x \<in> set (e_kernels e)"
        by (auto simp: drop_map)
      moreover have "e \<in> set stack" using calculation(1) by (meson in_set_dropD)
      ultimately show ?thesis using m(3) Cons.prems(5) by blast
    qed
  qed
  have disj: "set (all_leaves new) \<inter> set (off_spine m roots) = {}"
  proof -
    { fix x assume x: "x \<in> set (e_kernels N)" "x \<in> set (off_spine m roots)"
      then obtain e where e: "e \<in> set seen" "x \<in> set (e_kernels e)" "e_cpu_end e \<le> s"
        using closed by blast
      have "set (e_kernels e) \<inter> set (e_kernels N) = {}"
        using Cons.prems(8) e(1,3) by (simp add: s_def)
      then have False using x(1) e(2) by blast }
    then show ?thesis unfolding np(4) by blast
  qed
  have sp: "spine_ok (Suc m) roots'"
    "spine_kernels (Suc m) roots' = spine_kernels m roots @ [kern_children new]"
    "off_spine (Suc m) roots' = off_spine m roots"
    using spine_append_at[OF pre(1) np(1) np(3)] by (simp_all add: roots'_def)
  have d': "distinct (Fin roots')"
    unfolding roots'_def
    by (rule Fin_append_at_distinct[OF pre(1) np(1) Cons.prems(3) _ disj]) (simp add: np(5) dN)
  have sub: "set (Fin roots') \<subseteq> set (Fin roots) \<union> set (e_kernels N)"
    using Fin_append_at_subset[OF pre(1) np(1)] by (simp add: roots'_def np(5))
  have "distinct (Fin (nest roots' (stack' @ [N]) rest))
       \<and> set (Fin (nest roots' (stack' @ [N]) rest)) \<subseteq> set (Fin roots') \<union> \<Union> (set ` e_kernels ` set rest)"
  proof (rule Cons.IH[where seen = "seen @ [N]" and t = s])
    show "spine_ok (length (stack' @ [N])) roots'" using sp(1) lm by simp
    show "spine_kernels (length (stack' @ [N])) roots' = map e_kernels (stack' @ [N])"
      using sp(2) pre(2) lm np(2) by (simp add: stack'_def take_map)
    show "distinct (Fin roots')" by (rule d')
    show "\<forall>x\<in>set (off_spine (length (stack' @ [N])) roots').
           \<exists>e\<in>set (seen @ [N]). x \<in> set (e_kernels e) \<and> e_cpu_end e \<le> s"
      using sp(3) lm closed by auto
    show "set (stack' @ [N]) \<subseteq> set (seen @ [N])"
      using Cons.prems(5) by (auto simp: stack'_def dest: in_set_takeD)
    show "\<forall>e\<in>set rest. s \<le> e_cpu_start e" using Cons.prems(7) by (simp add: s_def)
    show "sorted (map e_cpu_start rest)" using Cons.prems(7) by simp
    show "\<forall>e1\<in>set ((seen @ [N]) @ rest). \<forall>e2\<in>set ((seen @ [N]) @ rest).
           e_cpu_end e1 \<le> e_cpu_start e2 \<longrightarrow> set (e_kernels e1) \<inter> set (e_kernels e2) = {}"
      using Cons.prems(8) by simp
    show "\<forall>e\<in>set rest. distinct (e_kernels e) \<and> (\<forall>k\<in>set (e_kernels e). ntype k = KernelT)"
      using Cons.prems(9) by simp
  qed
  then show ?case unfolding step using sub by auto
qed

lemma nest_dedup_distinct:
  assumes "sorted (map e_cpu_start es)"
    and "\<forall>e1\<in>set es. \<forall>e2\<in>set es.
           e_cpu_end e1 \<le> e_cpu_start e2 \<longrightarrow> set (e_kernels e1) \<inter> set (e_kernels e2) = {}"
    and "\<forall>e\<in>set es. distinct (e_kernels e) \<and> (\<forall>k\<in>set (e_kernels e). ntype k = KernelT)"
  shows "distinct (forest_leaves (deduplicate_kernels (nest [] [] es)))
       \<and> set (forest_leaves (deduplicate_kernels (nest [] [] es))) \<subseteq> \<Union> (set ` e_kernels ` set es)"
proof (cases es)
  case Nil
  then show ?thesis by (simp add: forest_leaves_dedup Fin_def)
next
  case (Cons e0 rest)
  have "distinct (Fin (nest [] [] es))
       \<and> set (Fin (nest [] [] es)) \<subseteq> set (Fin []) \<union> \<Union> (set ` e_kernels ` set es)"
  proof (rule nest_distinct[where seen = "[]" and t = "e_cpu_start e0"])
    show "\<forall>e\<in>set es. e_cpu_start e0 \<le> e_cpu_start e" using assms(1) Cons by auto
  qed (use assms in \<open>simp_all add: Fin_def forest_leaves_def\<close>)
  then show ?thesis by (simp add: forest_leaves_dedup Fin_def)
qed

lemma kernel_id_leaf_inj: "kernel_id (kernel_leaf k) = kernel_id (kernel_leaf k') \<Longrightarrow> k = k'"
  by (simp add: kernel_id_def kernel_leaf_def)

lemma correlated_sound:
  "k \<in> set (correlated kmap s e rts) \<Longrightarrow>
     \<exists>rt\<in>set rts. s \<le> r_start rt \<and> r_end rt \<le> e \<and> map_of kmap (r_correlationId rt) = Some k"
  by (induction rts) (auto split: if_splits option.splits)

lemma map_of_value_inj:
  "distinct (map snd kmap) \<Longrightarrow> map_of kmap a = Some v \<Longrightarrow> map_of kmap b = Some v \<Longrightarrow> a = b"
proof -
  assume d: "distinct (map snd kmap)" and a: "map_of kmap a = Some v" and b: "map_of kmap b = Some v"
  have m: "(a, v) \<in> set kmap" "(b, v) \<in> set kmap" using a b by (auto dest: map_of_SomeD)
  have i: "inj_on snd (set kmap)" using d by (simp add: distinct_map)
  have "(a, v) = (b, v)" by (rule inj_onD[OF i _ m]) simp
  then show "a = b" by simp
qed

lemma correlated_distinct:
  "distinct (map snd kmap) \<Longrightarrow> distinct (map r_correlationId rts) \<Longrightarrow>
     distinct (correlated kmap s e rts)"
proof (induction rts)
  case Nil
  then show ?case by simp
next
  case (Cons rt rts)
  have ih: "distinct (correlated kmap s e rts)" using Cons by simp
  have "k \<notin> set (correlated kmap s e rts)" if "map_of kmap (r_correlationId rt) = Some k" for k
  proof
    assume "k \<in> set (correlated kmap s e rts)"
    then obtain rt' where "rt' \<in> set rts" "map_of kmap (r_correlationId rt') = Some k"
      using correlated_sound by blast
    then have "r_correlationId rt' = r_correlationId rt"
      using map_of_value_inj[OF Cons.prems(1) _ that] by blast
    moreover have "r_correlationId rt \<notin> r_correlationId ` set rts" using Cons.prems(2) by simp
    ultimately show False using \<open>rt' \<in> set rts\<close> by (metis imageI)
  qed
  then show ?case using ih by (auto split: option.splits)
qed

lemma map_filter_set: "e \<in> set (List.map_filter f xs) \<longleftrightarrow> (\<exists>x\<in>set xs. f x = Some e)"
  by (induction xs) (auto simp: List.map_filter_simps split: option.splits)

lemma entry_of_Some:
  "entry_of kmap rt_rows trim n = Some e \<Longrightarrow>
     e_cpu_start e = n_start n \<and> e_cpu_end e = n_end n
     \<and> e_kernels e = map kernel_leaf (correlated kmap (n_start n) (n_end n) rt_rows)"
  by (auto simp: entry_of_def Let_def split: if_splits)

lemma map_filter_sorted:
  assumes "sorted (map g xs)" "\<And>x e. f x = Some e \<Longrightarrow> h e = g x"
  shows "sorted (map h (List.map_filter f xs))"
  using assms(1)
proof (induction xs)
  case Nil
  then show ?case by (simp add: List.map_filter_simps)
next
  case (Cons x xs)
  have ih: "sorted (map h (List.map_filter f xs))" using Cons by simp
  show ?case
  proof (cases "f x")
    case None
    then show ?thesis using ih by (simp add: List.map_filter_simps)
  next
    case (Some e)
    have "\<forall>e'\<in>set (List.map_filter f xs). h e \<le> h e'"
    proof
      fix e' assume "e' \<in> set (List.map_filter f xs)"
      then obtain x' where "x' \<in> set xs" "f x' = Some e'" by (auto simp: map_filter_set)
      then show "h e \<le> h e'" using Cons.prems assms(2)[OF Some] assms(2)[of x' e'] by auto
    qed
    then show ?thesis using ih Some by (simp add: List.map_filter_simps)
  qed
qed

lemma update_values:
  "set (map snd (AList.update k v m)) \<subseteq> insert v (set (map snd m))"
  "distinct (map snd m) \<Longrightarrow> v \<notin> set (map snd m) \<Longrightarrow> distinct (map snd (AList.update k v m))"
proof -
  show a: "set (map snd (AList.update k v m)) \<subseteq> insert v (set (map snd m))" for m
    by (induction m) auto
  show "distinct (map snd m) \<Longrightarrow> v \<notin> set (map snd m) \<Longrightarrow> distinct (map snd (AList.update k v m))"
  proof (induction m)
    case Nil
    then show ?case by simp
  next
    case (Cons p m)
    then show ?case using a[of m] by (cases "fst p = k") auto
  qed
qed

lemma fold_update_values:
  "distinct (map snd m) \<Longrightarrow> distinct (map g rows) \<Longrightarrow> set (map snd m) \<inter> set (map g rows) = {} \<Longrightarrow>
     distinct (map snd (fold (\<lambda>r m. AList.update (f r) (g r) m) rows m))
     \<and> set (map snd (fold (\<lambda>r m. AList.update (f r) (g r) m) rows m))
         \<subseteq> set (map snd m) \<union> set (map g rows)"
proof (induction rows arbitrary: m)
  case Nil
  then show ?case by simp
next
  case (Cons r rows)
  define m' where "m' = AList.update (f r) (g r) m"
  have nin: "g r \<notin> set (map snd m)" using Cons.prems(3) by auto
  have d': "distinct (map snd m')" unfolding m'_def by (rule update_values(2)[OF Cons.prems(1) nin])
  have s': "set (map snd m') \<subseteq> insert (g r) (set (map snd m))"
    unfolding m'_def by (rule update_values(1))
  have dis: "set (map snd m') \<inter> set (map g rows) = {}"
  proof -
    have "insert (g r) (set (map snd m)) \<inter> set (map g rows) = {}"
      using Cons.prems(2,3) by auto
    then show ?thesis using s' by blast
  qed
  have dr: "distinct (map g rows)" using Cons.prems(2) by simp
  note ih = Cons.IH[OF d' dr dis]
  have "set (map snd (fold (\<lambda>r m. AList.update (f r) (g r) m) rows m'))
      \<subseteq> set (map snd m') \<union> set (map g rows)" using ih by simp
  also have "\<dots> \<subseteq> insert (g r) (set (map snd m)) \<union> set (map g rows)" using s' by blast
  also have "\<dots> = set (map snd m) \<union> set (map g (r # rows))" by auto
  finally have sub: "set (map snd (fold (\<lambda>r m. AList.update (f r) (g r) m) rows m'))
      \<subseteq> set (map snd m) \<union> set (map g (r # rows))" .
  have "fold (\<lambda>r m. AList.update (f r) (g r) m) (r # rows) m
      = fold (\<lambda>r m. AList.update (f r) (g r) m) rows m'" by (simp add: m'_def)
  then show ?case using ih sub by simp
qed

lemma distinct_map_sort_key:
  "distinct (map f (sort_key g xs)) \<longleftrightarrow> distinct (map f xs)"
  by (simp add: distinct_map)

lemma kernel_map_values:
  assumes "distinct (map kinfo_of (filter (\<lambda>k. k_deviceId k = device) (KERNEL prof)))"
  shows "distinct (map snd (kernel_map prof device))"
  unfolding kernel_map_def
  using fold_update_values[of "[]" kinfo_of
      "sort_key k_start (filter (\<lambda>k. k_deviceId k = device) (KERNEL prof))" k_correlationId]
    assms
  by (simp add: distinct_map_sort_key)

lemma tree_entries_ok:
  fixes prof :: profile and device tid pad :: int and trim :: "int \<times> int"
  assumes T1: "\<forall>r\<in>set (RUNTIME prof). r_globalTid r = tid \<longrightarrow> r_start r < r_end r"
    and T2: "distinct (map r_correlationId (filter (\<lambda>r. r_globalTid r = tid) (RUNTIME prof)))"
    and T3: "distinct (map kinfo_of (filter (\<lambda>k. k_deviceId k = device) (KERNEL prof)))"
  defines "es \<equiv> tree_entries prof device trim pad tid"
  shows "sorted (map e_cpu_start es)"
    and "\<forall>e1\<in>set es. \<forall>e2\<in>set es.
           e_cpu_end e1 \<le> e_cpu_start e2 \<longrightarrow> set (e_kernels e1) \<inter> set (e_kernels e2) = {}"
    and "\<forall>e\<in>set es. distinct (e_kernels e) \<and> (\<forall>k\<in>set (e_kernels e). ntype k = KernelT)"
    and "\<forall>e\<in>set es. \<forall>x\<in>set (e_kernels e). \<exists>k. x = kernel_leaf k"
proof -
  define kmap where "kmap = kernel_map prof device"
  define rt_rows where "rt_rows = sort_key r_start
                      (filter (\<lambda>r. r_globalTid r = tid \<and> fst trim - pad \<le> r_start r
                                   \<and> r_end r \<le> snd trim + 2000000000)
                         (RUNTIME prof))"
  define nvtx_rows where "nvtx_rows = sort_key n_start
                        (filter (\<lambda>n. n_text n \<noteq> None \<and> n_start n < n_end n
                                     \<and> n_globalTid n = tid
                                     \<and> fst trim - pad \<le> n_start n \<and> n_start n \<le> snd trim)
                           (NVTX_EVENTS prof))"
  have es: "es = List.map_filter (entry_of kmap rt_rows trim) nvtx_rows"
    by (simp add: es_def tree_entries_def Let_def kmap_def rt_rows_def nvtx_rows_def)
  have kv: "distinct (map snd kmap)" unfolding kmap_def by (rule kernel_map_values[OF T3])
  have "filter (\<lambda>r. r_globalTid r = tid \<and> fst trim - pad \<le> r_start r
                                   \<and> r_end r \<le> snd trim + 2000000000) (RUNTIME prof)
       = filter (\<lambda>r. fst trim - pad \<le> r_start r \<and> r_end r \<le> snd trim + 2000000000)
           (filter (\<lambda>r. r_globalTid r = tid) (RUNTIME prof))"
    by (auto intro: filter_cong)
  moreover have "distinct (map r_correlationId
      (filter (\<lambda>r. fst trim - pad \<le> r_start r \<and> r_end r \<le> snd trim + 2000000000)
           (filter (\<lambda>r. r_globalTid r = tid) (RUNTIME prof))))"
    by (rule distinct_map_filter[OF T2])
  ultimately have rd: "distinct (map r_correlationId rt_rows)"
    unfolding rt_rows_def distinct_map_sort_key by (simp only:)
  have rpos: "\<forall>r\<in>set rt_rows. r_start r < r_end r" using T1 by (auto simp: rt_rows_def)
  have ent: "\<exists>n::nvtx_row. e_cpu_start e = n_start n \<and> e_cpu_end e = n_end n
     \<and> e_kernels e = map kernel_leaf (correlated kmap (n_start n) (n_end n) rt_rows)"
    if "e \<in> set es" for e
  proof -
    from that obtain n where "entry_of kmap rt_rows trim n = Some e"
      unfolding es map_filter_set by blast
    from entry_of_Some[OF this] show ?thesis by blast
  qed
  show "sorted (map e_cpu_start es)"
    unfolding es
    by (rule map_filter_sorted[where g = n_start]) (auto simp: nvtx_rows_def dest: entry_of_Some)
  show "\<forall>e\<in>set es. \<forall>x\<in>set (e_kernels e). \<exists>k. x = kernel_leaf k"
    using ent by fastforce
  show "\<forall>e\<in>set es. distinct (e_kernels e) \<and> (\<forall>k\<in>set (e_kernels e). ntype k = KernelT)"
  proof
    fix e assume "e \<in> set es"
    then obtain n :: nvtx_row where n: "e_kernels e = map kernel_leaf (correlated kmap (n_start n) (n_end n) rt_rows)"
      using ent by blast
    have "inj kernel_leaf" by (rule injI) (rule kernel_id_leaf_inj, simp)
    then have "inj_on kernel_leaf (set (correlated kmap (n_start n) (n_end n) rt_rows))"
      by (rule inj_on_subset) simp
    then have "distinct (e_kernels e)"
      unfolding n using correlated_distinct[OF kv rd] by (simp add: distinct_map)
    moreover have "\<forall>k\<in>set (e_kernels e). ntype k = KernelT"
      unfolding n by (auto simp: kernel_leaf_def)
    ultimately show "distinct (e_kernels e) \<and> (\<forall>k\<in>set (e_kernels e). ntype k = KernelT)" by simp
  qed
  show "\<forall>e1\<in>set es. \<forall>e2\<in>set es.
           e_cpu_end e1 \<le> e_cpu_start e2 \<longrightarrow> set (e_kernels e1) \<inter> set (e_kernels e2) = {}"
  proof (intro ballI impI)
    fix e1 e2 assume e: "e1 \<in> set es" "e2 \<in> set es" and le: "e_cpu_end e1 \<le> e_cpu_start e2"
    obtain n1 :: nvtx_row where n1: "e_cpu_start e1 = n_start n1" "e_cpu_end e1 = n_end n1"
      "e_kernels e1 = map kernel_leaf (correlated kmap (n_start n1) (n_end n1) rt_rows)"
      using ent[OF e(1)] by blast
    obtain n2 :: nvtx_row where n2: "e_cpu_start e2 = n_start n2" "e_cpu_end e2 = n_end n2"
      "e_kernels e2 = map kernel_leaf (correlated kmap (n_start n2) (n_end n2) rt_rows)"
      using ent[OF e(2)] by blast
    { fix x assume x: "x \<in> set (e_kernels e1)" "x \<in> set (e_kernels e2)"
      obtain k1 where k1: "x = kernel_leaf k1"
        "k1 \<in> set (correlated kmap (n_start n1) (n_end n1) rt_rows)"
        using x(1) unfolding n1 by auto
      obtain k2 where k2: "x = kernel_leaf k2"
        "k2 \<in> set (correlated kmap (n_start n2) (n_end n2) rt_rows)"
        using x(2) unfolding n2 by auto
      note k = k1(1) k2(1) k1(2) k2(2)
      have "kernel_id (kernel_leaf k1) = kernel_id (kernel_leaf k2)" using k(1,2) by simp
      then have kk: "k1 = k2" by (rule kernel_id_leaf_inj)
      obtain r1 where r1: "r1 \<in> set rt_rows" "r_end r1 \<le> n_end n1"
        "map_of kmap (r_correlationId r1) = Some k1"
        using correlated_sound[OF k(3)] by blast
      obtain r2 where r2: "r2 \<in> set rt_rows" "n_start n2 \<le> r_start r2"
        "map_of kmap (r_correlationId r2) = Some k2"
        using correlated_sound[OF k(4)] by blast
      have "r_correlationId r1 = r_correlationId r2"
        using map_of_value_inj[OF kv r1(3)] r2(3) kk by simp
      moreover have "inj_on r_correlationId (set rt_rows)" using rd by (simp add: distinct_map)
      ultimately have "r1 = r2" using r1(1) r2(1) by (auto dest: inj_onD)
      then have False using r1(2) r2(2) rpos r1(1) le n1(2) n2(1) by force }
    then show "set (e_kernels e1) \<inter> set (e_kernels e2) = {}" by blast
  qed
qed

lemma ids_forest:
  "mset (map kernel_id (forest_leaves nodes)) = (\<Sum>n\<in>#mset nodes. ids n)"
  by (induction nodes) (simp_all add: forest_leaves_def ids_def)

lemma ids_scope:
  "ids (Node nm dm s e st NvtxT du cs) =
     image_mset kernel_id (filter_mset (\<lambda>c. ntype c = KernelT) (mset cs))
     + (\<Sum>c\<in>#filter_mset (\<lambda>c. ntype c = NvtxT) (mset cs). ids c)"
proof -
  have "mset (map kernel_id (concat (map all_leaves xs))) = (\<Sum>c\<in>#mset xs. ids c)" for xs
    using ids_forest[of xs] by (simp add: forest_leaves_def)
  from this[of "filter (\<lambda>c. ntype c = NvtxT) cs"] show ?thesis
    by (simp add: ids_def)
qed

lemma sort_children_node_sel [simp]:
  "ntype (sort_children_node n) = ntype n" "kernel_id (sort_children_node n) = kernel_id n"
  by (cases n; simp add: kernel_id_def)+

lemma ids_sort_children_node: "ids (sort_children_node n) = ids n"
proof (induction n rule: sort_children_node.induct)
  case (1 nm dm s e st ty du cs)
  show ?case
  proof (cases "ty = NvtxT")
    case False
    then show ?thesis by (simp add: ids_def)
  next
    case True
    define cs' where "cs' = map sort_children_node (sort_key nstart cs)"
    have m: "mset cs' = image_mset sort_children_node (mset cs)" by (simp add: cs'_def)
    have ih: "\<And>c. c \<in># mset cs \<Longrightarrow> ids (sort_children_node c) = ids c" using 1 by simp
    have k: "image_mset kernel_id (filter_mset (\<lambda>c. ntype c = KernelT) (mset cs'))
           = image_mset kernel_id (filter_mset (\<lambda>c. ntype c = KernelT) (mset cs))"
      unfolding m by (simp add: filter_mset_image_mset image_mset.compositionality comp_def)
    have "(\<Sum>c\<in>#filter_mset (\<lambda>c. ntype c = NvtxT) (mset cs'). ids c)
        = (\<Sum>c\<in>#filter_mset (\<lambda>c. ntype c = NvtxT) (mset cs). ids (sort_children_node c))"
      unfolding m by (simp add: filter_mset_image_mset image_mset.compositionality comp_def)
    also have "\<dots> = (\<Sum>c\<in>#filter_mset (\<lambda>c. ntype c = NvtxT) (mset cs). ids c)"
      by (rule arg_cong[where f = sum_mset], rule image_mset_cong) (use ih in auto)
    finally have n: "(\<Sum>c\<in>#filter_mset (\<lambda>c. ntype c = NvtxT) (mset cs'). ids c)
        = (\<Sum>c\<in>#filter_mset (\<lambda>c. ntype c = NvtxT) (mset cs). ids c)" .
    have "sort_children_node (Node nm dm s e st ty du cs) = Node nm dm s e st NvtxT du cs'"
      using True by (simp add: cs'_def)
    then show ?thesis using True k n by (simp only: ids_scope)
  qed
qed

lemma sort_children_distinct:
  "distinct (map kernel_id (forest_leaves (sort_children nodes)))
     \<longleftrightarrow> distinct (map kernel_id (forest_leaves nodes))"
proof -
  have "mset (map kernel_id (forest_leaves (sort_children nodes)))
      = mset (map kernel_id (forest_leaves nodes))"
    unfolding ids_forest sort_children_def
    by (simp add: image_mset.compositionality comp_def ids_sort_children_node)
  then show ?thesis by (rule mset_eq_imp_distinct_iff)
qed

text \<open>
  Claim C3, as the code has it. When every launch call of the primary thread has a
  positive duration, its launch calls have pairwise different correlation ids, and the
  kernels of the device are pairwise different, every kernel appears at most once among the
  leaves of the tree, after the deduplication pass and in the tree that is returned: no two
  scope nodes list the same kernel. A scope node keeps exactly those of its kernels whose
  start time no scope below it claims. The stack discipline is not needed for this.
\<close>

theorem leaf_exclusivity:
  fixes prof :: profile and device tid pad :: int and trim :: "int \<times> int"
  assumes "\<forall>r\<in>set (RUNTIME prof). r_globalTid r = tid \<longrightarrow> r_start r < r_end r"
    and "distinct (map r_correlationId (filter (\<lambda>r. r_globalTid r = tid) (RUNTIME prof)))"
    and "distinct (map kinfo_of (filter (\<lambda>k. k_deviceId k = device) (KERNEL prof)))"
  shows "distinct (map kernel_id
            (forest_leaves (deduplicate_kernels (nest [] [] (tree_entries prof device trim pad tid)))))
       \<and> distinct (map kernel_id (forest_leaves (build_nvtx_tree_on prof device trim pad tid)))
       \<and> (\<forall>n. ntype n = NvtxT \<longrightarrow>
             kern_children (deduplicate_node n) =
               filter (\<lambda>c. nstart c \<notin> claimed_below n) (kern_children n))"
proof -
  define es where "es = tree_entries prof device trim pad tid"
  define L where "L = forest_leaves (deduplicate_kernels (nest [] [] es))"
  note ok = tree_entries_ok[OF assms, of trim pad, folded es_def]
  have d: "distinct L" and sub: "set L \<subseteq> \<Union> (set ` e_kernels ` set es)"
    using nest_dedup_distinct[OF ok(1) ok(2) ok(3)] by (simp_all add: L_def)
  have "inj_on kernel_id (set L)"
  proof (rule inj_onI)
    fix x y assume "x \<in> set L" "y \<in> set L" and e: "kernel_id x = kernel_id y"
    then obtain k k' where "x = kernel_leaf k" "y = kernel_leaf k'" using sub ok(4) by blast
    then show "x = y" using e kernel_id_leaf_inj by blast
  qed
  then have 1: "distinct (map kernel_id L)" using d by (simp add: distinct_map)
  have 2: "distinct (map kernel_id (forest_leaves (build_nvtx_tree_on prof device trim pad tid)))"
  proof -
    have "forest_leaves [] = []" by (simp add: forest_leaves_def)
    then show ?thesis
      using 1 unfolding build_nvtx_tree_on_def L_def es_def
      by (simp add: sort_children_distinct)
  qed
  show ?thesis using 1 2 kern_children_dedup by (simp add: L_def es_def)
qed

theorem leaf_exclusivity_witness:
  "forest_leaves (build_nvtx_tree_on mixed_profile 0 (0, 1000) 0 1) =
     [Node ''gemm'' ''gemm'' 200 210 (Some 0) KernelT None [],
      Node ''softmax'' ''softmax'' 220 230 (Some 0) KernelT None []]
   \<and> distinct (map kernel_id (forest_leaves (build_nvtx_tree_on mixed_profile 0 (0, 1000) 0 1)))"
proof -
  have a: "\<forall>r\<in>set (RUNTIME mixed_profile). r_globalTid r = 1 \<longrightarrow> r_start r < r_end r"
    by (simp add: mixed_profile_def)
  have b: "distinct (map r_correlationId (filter (\<lambda>r. r_globalTid r = 1) (RUNTIME mixed_profile)))"
    by (simp add: mixed_profile_def)
  have c: "distinct (map kinfo_of (filter (\<lambda>k. k_deviceId k = 0) (KERNEL mixed_profile)))"
    by (simp add: mixed_profile_def kinfo_of_def)
  have l: "forest_leaves (build_nvtx_tree_on mixed_profile 0 (0, 1000) 0 1) =
     [Node ''gemm'' ''gemm'' 200 210 (Some 0) KernelT None [],
      Node ''softmax'' ''softmax'' 220 230 (Some 0) KernelT None []]"
    by code_simp
  show ?thesis using leaf_exclusivity[OF a b c, of "(0, 1000)" 0] l by blast
qed

text \<open>
  Claim C3 as stated fails for a launch call of zero duration on the common boundary of two
  adjacent scopes: both scopes correlate it, neither is below the other, and the kernel is a
  leaf of both.
\<close>

theorem boundary_launch_listed_twice:
  "find_primary_thread boundary_profile 0 1
   \<and> build_nvtx_tree_on boundary_profile 0 (0, 1000) 0 1 =
       [Node ''forward'' [] 100 200 None NvtxT None
          [Node ''gemm'' ''gemm'' 100 200 (Some 0) KernelT None []],
        Node ''backward'' [] 100 200 None NvtxT None
          [Node ''gemm'' ''gemm'' 100 200 (Some 0) KernelT None []]]
   \<and> \<not> distinct (map kernel_id (forest_leaves (build_nvtx_tree_on boundary_profile 0 (0, 1000) 0 1)))"
  by code_simp

end
